theory Spec2Isabelle
  imports Main
begin

section \<open>goxml: the node model\<close>

text \<open>
  The embedding follows the Go package \<^verbatim>\<open>goxml\<close>. Two revisions of its one source file
  are at hand: \<^verbatim>\<open>xmldecoder.go\<close> and the later revision that adds node identities
  (\<^verbatim>\<open>ID\<close>, drawn from the channel \<^verbatim>\<open>ids\<close>), attribute nodes and \<^verbatim>\<open>SetAttribute\<close>.
  \<^verbatim>\<open>Parse\<close>, \<^verbatim>\<open>toxml\<close>, \<^verbatim>\<open>escape\<close> and \<^verbatim>\<open>XMLDocument.Append\<close> are the same in both but
  for the identities; the model is the later revision, and forgetting the \<^verbatim>\<open>ID\<close> fields
  gives the earlier one.

  Elements and documents are handled through pointers (\<^verbatim>\<open>*Element\<close>, \<^verbatim>\<open>*XMLDocument\<close>) and
  are mutated while other nodes refer to them, so they live in an explicit store and a
  node refers to them by address. Character data, comments and processing instructions
  are values.
\<close>

type_synonym addr = nat

text \<open>\<^verbatim>\<open>xml.Name\<close> and \<^verbatim>\<open>xml.Attr\<close> of \<^verbatim>\<open>encoding/xml\<close>.\<close>

datatype xml_Name = xml_Name (Space: string) (Local: string)

datatype xml_Attr = xml_Attr (AttrName: xml_Name) (AttrValue: string)

text \<open>
  An \<^verbatim>\<open>XMLNode\<close> interface value: a pointer to an element or to a document, or one of the
  value nodes with its \<^verbatim>\<open>ID\<close> and contents. These are the five kinds that \<^verbatim>\<open>Parse\<close>
  makes. The later revision also lets an \<^verbatim>\<open>Attribute\<close> be passed to \<^verbatim>\<open>Element.Append\<close>;
  that case of \<^verbatim>\<open>Append\<close> is a function of its own below (\<open>elt_Append_Attribute\<close>), and
  an attribute is never a child. Pointers to the value nodes (\<^verbatim>\<open>*CharData\<close>), which no
  function of the package makes, are left out.
\<close>

datatype XMLNode =
    ElementP addr
  | DocumentP addr
  | CharData int string
  | Comment int string
  | ProcInst int string string

text \<open>The struct \<^verbatim>\<open>Attribute\<close>.\<close>

record Attribute =
  attr_ID :: int
  attr_Name :: string
  attr_Namespace :: string
  attr_Prefix :: string
  attr_Value :: string

text \<open>
  The struct \<^verbatim>\<open>Element\<close>. \<^verbatim>\<open>Parent\<close> is \<open>None\<close> for the nil interface. \<^verbatim>\<open>Namespaces\<close> is
  a Go map from prefix to URI: a list of bindings with distinct prefixes, whose order
  means nothing (every \<^verbatim>\<open>range\<close> over it goes through a \<open>map_order\<close>, below). The fields
  \<^verbatim>\<open>Line\<close> and \<^verbatim>\<open>Pos\<close> (the decoder's input position) are left out.
\<close>

record Element =
  ID :: int
  Name :: string
  Prefix :: string
  Parent :: "XMLNode option"
  Namespaces :: "(string \<times> string) list"
  children :: "XMLNode list"
  attributes :: "xml_Attr list"

record XMLDocument =
  doc_ID :: int
  doc_children :: "XMLNode list"

text \<open>
  The store: the elements and documents allocated so far, the next free address, and the
  next value the generator \<^verbatim>\<open>genIntegerSequence\<close> sends on the channel \<^verbatim>\<open>ids\<close>
  (\<^verbatim>\<open>i := 0; for { ids <- i; i++ }\<close>). Go's \<^verbatim>\<open>int\<close> has 64 bits; the model counts in
  \<open>int\<close>, since no run draws \<open>2 ^ 63\<close> identities.
\<close>

record world =
  elements :: "addr \<rightharpoonup> Element"
  documents :: "addr \<rightharpoonup> XMLDocument"
  next_addr :: addr
  ids :: int

text \<open>
  How a run ends without a value: the token source reports an error (returned by
  \<^verbatim>\<open>Parse\<close> as its \<^verbatim>\<open>error\<close>), a slice index is out of range or a nil pointer is
  dereferenced (run-time panics), or the recursion bound of the model is reached
  (\<open>OutOfFuel\<close>: the Go recursion does not return).
\<close>

datatype failure = TokenError string | IndexOutOfRange | NilDereference | OutOfFuel

text \<open>
  Go does not fix the order in which \<^verbatim>\<open>range\<close> visits a map. A \<open>map_order\<close> gives the
  order a run takes for each map; \<open>map_order_ok\<close> says that it visits exactly the
  bindings of the map.
\<close>

type_synonym map_order = "(string \<times> string) list \<Rightarrow> (string \<times> string) list"


section \<open>Escaping\<close>

text \<open>
  \<^verbatim>\<open>strings.NewReplacer("&", "&amp;", "<", "&lt;", "\"", "&quot;")\<close>: every old string is
  one byte, so the replacer is a table from bytes to strings, applied byte by byte; a
  byte with no entry is copied.
\<close>

definition entitiesReplacer :: "(char \<times> string) list" where
  "entitiesReplacer = [(CHR ''&'', ''&amp;''), (CHR ''<'', ''&lt;''), (CHR 0x22, ''&quot;'')]"

definition Replace :: "(char \<times> string) list \<Rightarrow> string \<Rightarrow> string" where
  "Replace table s = concat (map (\<lambda>c. case map_of table c of None \<Rightarrow> [c] | Some new \<Rightarrow> new) s)"

definition escape :: "string \<Rightarrow> string" where
  "escape s = Replace entitiesReplacer s"

text \<open>\<^verbatim>\<open>func (cd CharData) toxml(namespacePrinted map[string]bool) string\<close>\<close>

definition CharData_toxml :: "string \<Rightarrow> string set \<Rightarrow> string" where
  "CharData_toxml contents namespacePrinted = escape contents"

section \<open>Appending nodes and setting attributes\<close>

text \<open>
  \<^verbatim>\<open>func (elt *Element) Append(n XMLNode)\<close>, for a node \<open>n\<close> that is not an attribute: a
  \<^verbatim>\<open>CharData\<close> is merged into a last child that is a \<^verbatim>\<open>CharData\<close> (the merged value is
  \<^verbatim>\<open>CharData{Contents: str.Contents + t.Contents}\<close>, so its \<^verbatim>\<open>ID\<close> is the zero value);
  every other node is appended. The parent of \<open>n\<close> is not touched. \<open>elt_Append\<close> is
  the effect on the receiver, \<open>Element_Append\<close> the call through the pointer.
\<close>

definition elt_Append :: "Element \<Rightarrow> XMLNode \<Rightarrow> Element" where
  "elt_Append elt n =
     (case n of
        CharData i contents \<Rightarrow>
          (let l = length (children elt) in
           if l > 0 then
             (case children elt ! (l - 1) of
                CharData j str \<Rightarrow>
                  elt\<lparr>children := (children elt)[l - 1 := CharData 0 (str @ contents)]\<rparr>
              | _ \<Rightarrow> elt\<lparr>children := children elt @ [n]\<rparr>)
           else elt\<lparr>children := children elt @ [n]\<rparr>)
      | _ \<Rightarrow> elt\<lparr>children := children elt @ [n]\<rparr>)"

definition Element_Append :: "world \<Rightarrow> addr \<Rightarrow> XMLNode \<Rightarrow> failure + world" where
  "Element_Append w a n =
     (case elements w a of
        None \<Rightarrow> Inl NilDereference
      | Some elt \<Rightarrow> Inr (w\<lparr>elements := (elements w)(a \<mapsto> elt_Append elt n)\<rparr>))"

text \<open>
  The cases \<^verbatim>\<open>Attribute\<close> and \<^verbatim>\<open>*Attribute\<close> of the type switch in \<^verbatim>\<open>Element.Append\<close>
  (later revision): the first attribute with the same local name and namespace gets the
  new value in place; if there is none, the attribute is appended.
\<close>

fun Append_Attribute_loop :: "xml_Attr list \<Rightarrow> Attribute \<Rightarrow> xml_Attr list" where
  "Append_Attribute_loop [] t =
     [xml_Attr (xml_Name (attr_Namespace t) (attr_Name t)) (attr_Value t)]"
| "Append_Attribute_loop (attr # rest) t =
     (if Local (AttrName attr) = attr_Name t \<and> Space (AttrName attr) = attr_Namespace t
      then xml_Attr (AttrName attr) (attr_Value t) # rest
      else attr # Append_Attribute_loop rest t)"

definition elt_Append_Attribute :: "Element \<Rightarrow> Attribute \<Rightarrow> Element" where
  "elt_Append_Attribute elt t = elt\<lparr>attributes := Append_Attribute_loop (attributes elt) t\<rparr>"

text \<open>
  \<^verbatim>\<open>func (elt *Element) SetAttribute(attr xml.Attr)\<close>: all attributes but those of the same
  \<^verbatim>\<open>xml.Name\<close> are kept, in order; the local name of an attribute with a namespace gets the
  first prefix that \<^verbatim>\<open>range elt.Namespaces\<close> finds bound to it (or none) and a colon in
  front; the attribute is appended.
\<close>

definition SetAttribute_prefix :: "map_order \<Rightarrow> (string \<times> string) list \<Rightarrow> string \<Rightarrow> string" where
  "SetAttribute_prefix ord namespaces space =
     (case find (\<lambda>(k, v). v = space) (ord namespaces) of None \<Rightarrow> [] | Some (k, v) \<Rightarrow> k)"

definition elt_SetAttribute :: "map_order \<Rightarrow> Element \<Rightarrow> xml_Attr \<Rightarrow> Element" where
  "elt_SetAttribute ord elt attr =
     (let newAttributes = filter (\<lambda>curattr. AttrName curattr \<noteq> AttrName attr) (attributes elt);
          attr' =
            (if Space (AttrName attr) \<noteq> []
             then xml_Attr
                    (xml_Name (Space (AttrName attr))
                       (SetAttribute_prefix ord (Namespaces elt) (Space (AttrName attr))
                          @ '':'' @ Local (AttrName attr)))
                    (AttrValue attr)
             else attr)
      in elt\<lparr>attributes := newAttributes @ [attr']\<rparr>)"

text \<open>
  \<^verbatim>\<open>setParent\<close>: only \<^verbatim>\<open>*Element\<close> stores the parent; for the other nodes it is a dummy.
\<close>

definition setParent :: "world \<Rightarrow> XMLNode \<Rightarrow> XMLNode \<Rightarrow> failure + world" where
  "setParent w n p =
     (case n of
        ElementP a \<Rightarrow>
          (case elements w a of
             None \<Rightarrow> Inl NilDereference
           | Some elt \<Rightarrow> Inr (w\<lparr>elements := (elements w)(a \<mapsto> elt\<lparr>Parent := Some p\<rparr>)\<rparr>))
      | _ \<Rightarrow> Inr w)"

text \<open>
  \<^verbatim>\<open>func (xr *XMLDocument) Append(n XMLNode)\<close>: the node is appended, whatever the last
  child is, and its parent is set to the document.
\<close>

definition XMLDocument_Append :: "world \<Rightarrow> addr \<Rightarrow> XMLNode \<Rightarrow> failure + world" where
  "XMLDocument_Append w d n =
     (case documents w d of
        None \<Rightarrow> Inl NilDereference
      | Some xr \<Rightarrow>
          setParent (w\<lparr>documents := (documents w)(d \<mapsto> xr\<lparr>doc_children := doc_children xr @ [n]\<rparr>)\<rparr>)
            n (DocumentP d))"

text \<open>
  \<^verbatim>\<open>if c, ok := cur.(Appender); ok { c.Append(n) }\<close>: elements and documents are the
  appenders.
\<close>

fun Append :: "world \<Rightarrow> XMLNode \<Rightarrow> XMLNode \<Rightarrow> failure + world" where
  "Append w (ElementP a) n = Element_Append w a n"
| "Append w (DocumentP d) n = XMLDocument_Append w d n"
| "Append w _ n = Inr w"

text \<open>\<^verbatim>\<open>Children()\<close> and \<^verbatim>\<open>getID()\<close> of each kind of node.\<close>

fun Children :: "world \<Rightarrow> XMLNode \<Rightarrow> failure + XMLNode list" where
  "Children w (ElementP a) =
     (case elements w a of None \<Rightarrow> Inl NilDereference | Some elt \<Rightarrow> Inr (children elt))"
| "Children w (DocumentP d) =
     (case documents w d of None \<Rightarrow> Inl NilDereference | Some xr \<Rightarrow> Inr (doc_children xr))"
| "Children w _ = Inr []"

fun getID :: "world \<Rightarrow> XMLNode \<Rightarrow> failure + int" where
  "getID w (ElementP a) =
     (case elements w a of None \<Rightarrow> Inl NilDereference | Some elt \<Rightarrow> Inr (ID elt))"
| "getID w (DocumentP d) =
     (case documents w d of None \<Rightarrow> Inl NilDereference | Some xr \<Rightarrow> Inr (doc_ID xr))"
| "getID w (CharData i contents) = Inr i"
| "getID w (Comment i contents) = Inr i"
| "getID w (ProcInst i target inst) = Inr i"

section \<open>The tree builder\<close>

text \<open>
  The tokens of \<^verbatim>\<open>encoding/xml\<close>. A token stream is the list of tokens that
  \<^verbatim>\<open>dec.Token()\<close> delivers and then how it ends: \<open>None\<close> for \<^verbatim>\<open>io.EOF\<close>, \<open>Some e\<close> for any
  other error.
\<close>

datatype xml_Token =
    xml_StartElement xml_Name "xml_Attr list"
  | xml_EndElement xml_Name
  | xml_CharData string
  | xml_Comment string
  | xml_ProcInst string string
  | xml_Directive string

type_synonym token_stream = "xml_Token list \<times> string option"

text \<open>\<^verbatim>\<open><-ids\<close>: the next identity.\<close>

definition recv_ids :: "world \<Rightarrow> int \<times> world" where
  "recv_ids w = (ids w, w\<lparr>ids := ids w + 1\<rparr>)"

text \<open>\<^verbatim>\<open>NewElement()\<close>: a fresh element with an empty namespace map.\<close>

definition NewElement :: "world \<Rightarrow> addr \<times> world" where
  "NewElement w =
     (next_addr w,
      w\<lparr>elements := (elements w)(next_addr w \<mapsto>
           \<lparr>ID = 0, Name = [], Prefix = [], Parent = None, Namespaces = [], children = [],
            attributes = []\<rparr>),
        next_addr := Suc (next_addr w)\<rparr>)"

text \<open>\<^verbatim>\<open>m[k] = v\<close> on a Go map.\<close>

fun map_store :: "(string \<times> string) list \<Rightarrow> string \<Rightarrow> string \<Rightarrow> (string \<times> string) list" where
  "map_store [] k v = [(k, v)]"
| "map_store ((k', v') # m) k v =
     (if k' = k then (k, v) # m else (k', v') # map_store m k v)"

text \<open>\<^verbatim>\<open>for k, v := range c.Namespaces { tmp.Namespaces[k] = v }\<close>\<close>

definition copy_namespaces :: "map_order \<Rightarrow> (string \<times> string) list \<Rightarrow> (string \<times> string) list" where
  "copy_namespaces ord m = foldl (\<lambda>tmp (k, v). map_store tmp k v) [] (ord m)"

text \<open>
  The loop over \<^verbatim>\<open>v.Attr\<close>: an attribute whose local name is \<^verbatim>\<open>xmlns\<close> binds the empty
  prefix, one whose space is \<^verbatim>\<open>xmlns\<close> binds its local name, any other is stored.
\<close>

definition start_attribute ::
  "(string \<times> string) list \<times> xml_Attr list \<Rightarrow> xml_Attr \<Rightarrow> (string \<times> string) list \<times> xml_Attr list" where
  "start_attribute acc att =
     (case acc of (namespaces, attrs) \<Rightarrow>
        if Local (AttrName att) = ''xmlns'' then (map_store namespaces [] (AttrValue att), attrs)
        else if Space (AttrName att) = ''xmlns''
          then (map_store namespaces (Local (AttrName att)) (AttrValue att), attrs)
        else (namespaces, attrs @ [att]))"

text \<open>
  \<^verbatim>\<open>for prefix, ns := range tmp.Namespaces { if v.Name.Space == ns { tmp.Prefix = prefix } }\<close>:
  the last binding visited that matches gives the prefix.
\<close>

definition resolve_prefix :: "map_order \<Rightarrow> (string \<times> string) list \<Rightarrow> string \<Rightarrow> string" where
  "resolve_prefix ord namespaces space =
     foldl (\<lambda>p (prefix, ns). if space = ns then prefix else p) [] (ord namespaces)"

record pstate =
  cur :: XMLNode
  eltstack :: "XMLNode list"
  wld :: world

text \<open>One turn of the loop of \<^verbatim>\<open>Parse\<close>, for the token \<^verbatim>\<open>tok\<close>.\<close>

fun Parse_token :: "map_order \<Rightarrow> xml_Token \<Rightarrow> pstate \<Rightarrow> failure + pstate" where
  "Parse_token ord (xml_StartElement name attr) st =
     (case NewElement (wld st) of (tmp, w1) \<Rightarrow>
       (case recv_ids w1 of (i, w2) \<Rightarrow>
         (case (case cur st of
                  ElementP c \<Rightarrow>
                    (case elements w2 c of
                       None \<Rightarrow> Inl NilDereference
                     | Some celt \<Rightarrow> Inr (copy_namespaces ord (Namespaces celt)))
                | _ \<Rightarrow> Inr []) of
            Inl f \<Rightarrow> Inl f
          | Inr inherited \<Rightarrow>
              (case foldl start_attribute (inherited, []) attr of (namespaces, attrs) \<Rightarrow>
                (case Append
                        (w2\<lparr>elements := (elements w2)(tmp \<mapsto>
                              \<lparr>ID = i, Name = Local name,
                               Prefix = resolve_prefix ord namespaces (Space name),
                               Parent = Some (cur st), Namespaces = namespaces, children = [],
                               attributes = attrs\<rparr>)\<rparr>)
                        (cur st) (ElementP tmp) of
                   Inl f \<Rightarrow> Inl f
                 | Inr w3 \<Rightarrow>
                     Inr \<lparr>cur = ElementP tmp, eltstack = eltstack st @ [ElementP tmp],
                          wld = w3\<rparr>)))))"
| "Parse_token ord (xml_CharData v) st =
     (case recv_ids (wld st) of (i, w1) \<Rightarrow>
       (case Append w1 (cur st) (CharData i v) of
          Inl f \<Rightarrow> Inl f
        | Inr w2 \<Rightarrow> Inr (st\<lparr>wld := w2\<rparr>)))"
| "Parse_token ord (xml_ProcInst target inst) st =
     (case recv_ids (wld st) of (i, w1) \<Rightarrow>
       (case Append w1 (cur st) (ProcInst i target inst) of
          Inl f \<Rightarrow> Inl f
        | Inr w2 \<Rightarrow> Inr (st\<lparr>wld := w2\<rparr>)))"
| "Parse_token ord (xml_Comment v) st =
     (case recv_ids (wld st) of (i, w1) \<Rightarrow>
       (case Append w1 (cur st) (Comment i v) of
          Inl f \<Rightarrow> Inl f
        | Inr w2 \<Rightarrow> Inr (st\<lparr>wld := w2\<rparr>)))"
| "Parse_token ord (xml_EndElement name) st =
     (if length (eltstack st) < 2 then Inl IndexOutOfRange
      else Inr (st\<lparr>cur := eltstack st ! (length (eltstack st) - 2),
                   eltstack := take (length (eltstack st) - 1) (eltstack st)\<rparr>))"
| "Parse_token ord (xml_Directive v) st = Inr st"

text \<open>The loop over the tokens delivered before the stream ends.\<close>

fun Parse_loop :: "map_order \<Rightarrow> xml_Token list \<Rightarrow> pstate \<Rightarrow> failure + pstate" where
  "Parse_loop ord [] st = Inr st"
| "Parse_loop ord (tok # toks) st =
     (case Parse_token ord tok st of Inl f \<Rightarrow> Inl f | Inr st' \<Rightarrow> Parse_loop ord toks st')"

text \<open>
  The state in which the loop starts: \<^verbatim>\<open>doc := &XMLDocument{ID: <-ids}\<close>,
  \<^verbatim>\<open>eltstack := []XMLNode{doc}\<close>, \<^verbatim>\<open>cur = doc\<close>.
\<close>

definition Parse_init :: "world \<Rightarrow> addr \<times> pstate" where
  "Parse_init w =
     (case recv_ids w of (i, w1) \<Rightarrow>
        (next_addr w1,
         \<lparr>cur = DocumentP (next_addr w1), eltstack = [DocumentP (next_addr w1)],
          wld = w1\<lparr>documents := (documents w1)(next_addr w1 \<mapsto> \<lparr>doc_ID = i, doc_children = []\<rparr>),
                   next_addr := Suc (next_addr w1)\<rparr>\<rparr>))"

text \<open>
  \<^verbatim>\<open>func Parse(r io.Reader) (*XMLDocument, error)\<close>, on the token stream that the decoder
  makes of \<open>r\<close>: on \<^verbatim>\<open>io.EOF\<close> the loop is left and the document returned; any other
  error is returned with no document. The loop itself does not look at the stack when
  the stream ends, and pops it with \<^verbatim>\<open>eltstack[len(eltstack)-2]\<close> at an end-tag: what the
  stack holds at those moments follows from what the decoder delivers (\<open>dec_Token\<close>,
  below).
\<close>

definition Parse :: "map_order \<Rightarrow> token_stream \<Rightarrow> world \<Rightarrow> failure + addr \<times> world" where
  "Parse ord stream w =
     (case Parse_init w of (doc, st0) \<Rightarrow>
       (case Parse_loop ord (fst stream) st0 of
          Inl f \<Rightarrow> Inl f
        | Inr st \<Rightarrow>
            (case snd stream of
               None \<Rightarrow> Inr (doc, wld st)
             | Some err \<Rightarrow> Inl (TokenError err))))"

text \<open>
  The decoder. \<^verbatim>\<open>Parse\<close> makes it itself, \<^verbatim>\<open>dec := xml.NewDecoder(r)\<close>, and changes none
  of its settings, so it reads in strict mode. \<^verbatim>\<open>encoding/xml\<close> is Go's standard library
  and not a part of the package; \<^verbatim>\<open>Parse\<close> relies on what the library documents of
  \<^verbatim>\<open>Decoder.Token\<close>: "Token guarantees that the StartElement and EndElement tokens it
  returns are properly nested and matched: if Token encounters an unexpected end element
  or EOF before all expected end elements, it will return an error."

  \<open>dec_Token stk raw e\<close> is that check. \<open>raw\<close> are the tokens that the decoder reads off
  the input, one for each tag, text, comment, processing instruction and directive, and
  \<open>e\<close> is how reading ends: \<open>None\<close> when the input is used up, \<open>Some err\<close> when it cannot
  be read on. \<open>stk\<close> holds the names of the open elements (\<^verbatim>\<open>d.stk\<close>), innermost first.
  The result is the stream that the calls of \<^verbatim>\<open>dec.Token()\<close> deliver: the tokens up to
  the first end-tag that closes no open element, or not the innermost one, which is
  reported as a syntax error; and at the end of the input \<^verbatim>\<open>io.EOF\<close> only when no element
  is open, the syntax error \<^verbatim>\<open>unexpected EOF\<close> otherwise. The messages follow those
  of the library, without the line number it puts in front. The library compares the
  names of the tags as written (local name, then prefix) and resolves their prefixes
  afterwards; tags that match as written carry equal resolved names, so every stream
  that the library delivers is one that \<open>dec_Token\<close> delivers.
\<close>

fun dec_Token :: "xml_Name list \<Rightarrow> xml_Token list \<Rightarrow> string option \<Rightarrow> token_stream" where
  "dec_Token stk [] None = ([], if stk = [] then None else Some ''unexpected EOF'')"
| "dec_Token stk [] (Some err) = ([], Some err)"
| "dec_Token stk (xml_StartElement name attr # raw) e =
     (case dec_Token (name # stk) raw e of
        (toks, e') \<Rightarrow> (xml_StartElement name attr # toks, e'))"
| "dec_Token stk (xml_EndElement name # raw) e =
     (case stk of
        [] \<Rightarrow> ([], Some (''unexpected end element </'' @ Local name @ ''>''))
      | s # stk' \<Rightarrow>
          if Local s \<noteq> Local name
          then ([], Some (''element <'' @ Local s @ ''> closed by </'' @ Local name @ ''>''))
          else if Space s \<noteq> Space name
          then ([], Some (''element <'' @ Local s @ ''> in space '' @ Space s
                           @ '' closed by </'' @ Local name @ ''> in space '' @ Space name))
          else (case dec_Token stk' raw e of (toks, e') \<Rightarrow> (xml_EndElement name # toks, e')))"
| "dec_Token stk (tok # raw) e =
     (case dec_Token stk raw e of (toks, e') \<Rightarrow> (tok # toks, e'))"

text \<open>The world of a fresh process: nothing allocated, \<^verbatim>\<open>ids\<close> about to send 0.\<close>

definition world0 :: world where
  "world0 = \<lparr>elements = Map.empty, documents = Map.empty, next_addr = 0, ids = 0\<rparr>"

section \<open>The serializer\<close>

text \<open>
  The namespace loop of \<^verbatim>\<open>Element.toxml\<close>, over the bindings in the order the run visits
  them: a binding whose URI is not yet in \<^verbatim>\<open>namespacePrinted\<close> is written as
  \<^verbatim>\<open> xmlns="uri"\<close> or \<^verbatim>\<open> xmlns:prefix="uri"\<close> and its URI is marked. \<open>print_namespaces\<close>
  gives the bindings written, in order, and the set of marked URIs; \<open>decl_text\<close> is the
  text written for one of them.
\<close>

fun print_namespaces ::
  "(string \<times> string) list \<Rightarrow> string set \<Rightarrow> (string \<times> string) list \<times> string set" where
  "print_namespaces [] namespacePrinted = ([], namespacePrinted)"
| "print_namespaces ((prefix, ns) # rest) namespacePrinted =
     (if ns \<in> namespacePrinted then print_namespaces rest namespacePrinted
      else (case print_namespaces rest (insert ns namespacePrinted) of
              (written, printed') \<Rightarrow> ((prefix, ns) # written, printed')))"

definition decl_text :: "string \<times> string \<Rightarrow> string" where
  "decl_text b =
     '' '' @ (if fst b = [] then ''xmlns'' else ''xmlns:'' @ fst b) @ ''='' @ [CHR 0x22] @ snd b
       @ [CHR 0x22]"

text \<open>\<^verbatim>\<open>fmt.Fprintf(&sb, " %s=\"%s\"", att.Name.Local, escape(att.Value))\<close>\<close>

definition attr_text :: "xml_Attr \<Rightarrow> string" where
  "attr_text att =
     '' '' @ Local (AttrName att) @ ''='' @ [CHR 0x22] @ escape (AttrValue att) @ [CHR 0x22]"

definition eltname :: "Element \<Rightarrow> string" where
  "eltname elt = (if Prefix elt \<noteq> [] then Prefix elt @ '':'' @ Name elt else Name elt)"

text \<open>
  \<^verbatim>\<open>toxml\<close> of every kind of node. The result is the text, the namespace declarations
  written on the way, each with the address of the element that wrote it (a record of
  the run, not a part of the Go result), and the set \<^verbatim>\<open>namespacePrinted\<close> as the call
  leaves it. The Go recursion follows the children through the store; the first argument
  bounds its depth.
\<close>

type_synonym ns_decl = "addr \<times> string \<times> string"

fun toxml ::
    "nat \<Rightarrow> map_order \<Rightarrow> world \<Rightarrow> XMLNode \<Rightarrow> string set
      \<Rightarrow> failure + string \<times> ns_decl list \<times> string set"
  and toxml_children ::
    "nat \<Rightarrow> map_order \<Rightarrow> world \<Rightarrow> XMLNode list \<Rightarrow> string set
      \<Rightarrow> failure + string \<times> ns_decl list \<times> string set"
  where
  "toxml 0 ord w n namespacePrinted = Inl OutOfFuel"
| "toxml (Suc k) ord w (CharData i contents) namespacePrinted =
     Inr (CharData_toxml contents namespacePrinted, [], namespacePrinted)"
| "toxml (Suc k) ord w (Comment i contents) namespacePrinted =
     Inr (''<!--'' @ contents @ ''-->'', [], namespacePrinted)"
| "toxml (Suc k) ord w (ProcInst i target inst) namespacePrinted =
     Inr (''<?'' @ target @ '' '' @ inst @ ''?>'', [], namespacePrinted)"
| "toxml (Suc k) ord w (DocumentP d) namespacePrinted =
     (case documents w d of
        None \<Rightarrow> Inl NilDereference
      | Some xr \<Rightarrow> toxml_children k ord w (doc_children xr) namespacePrinted)"
| "toxml (Suc k) ord w (ElementP a) namespacePrinted =
     (case elements w a of
        None \<Rightarrow> Inl NilDereference
      | Some elt \<Rightarrow>
          (case print_namespaces (ord (Namespaces elt)) namespacePrinted of
             (written, printed1) \<Rightarrow>
               (if length (children elt) = 0
                then Inr (''<'' @ eltname elt @ concat (map decl_text written)
                            @ concat (map attr_text (attributes elt)) @ '' />'',
                          map (Pair a) written, printed1)
                else (case toxml_children k ord w (children elt) printed1 of
                        Inl f \<Rightarrow> Inl f
                      | Inr (body, ds, printed2) \<Rightarrow>
                          Inr (''<'' @ eltname elt @ concat (map decl_text written)
                                 @ concat (map attr_text (attributes elt)) @ ''>'' @ body
                                 @ ''</'' @ eltname elt @ ''>'',
                               map (Pair a) written @ ds, printed2)))))"
| "toxml_children k ord w [] namespacePrinted = Inr ([], [], namespacePrinted)"
| "toxml_children k ord w (child # rest) namespacePrinted =
     (case toxml k ord w child namespacePrinted of
        Inl f \<Rightarrow> Inl f
      | Inr (s1, ds1, printed1) \<Rightarrow>
          (case toxml_children k ord w rest printed1 of
             Inl f \<Rightarrow> Inl f
           | Inr (s2, ds2, printed2) \<Rightarrow> Inr (s1 @ s2, ds1 @ ds2, printed2)))"


definition XMLDocument_ToXML :: "nat \<Rightarrow> map_order \<Rightarrow> world \<Rightarrow> addr \<Rightarrow> failure + string" where
  "XMLDocument_ToXML k ord w d =
     (case toxml k ord w (DocumentP d) {} of Inl f \<Rightarrow> Inl f | Inr r \<Rightarrow> Inr (fst r))"

section \<open>Notions used in the statements\<close>

text \<open>
  \<open>nesting k toks\<close> counts the elements that are open after the tokens \<open>toks\<close>, starting
  with \<open>k\<close> open elements; it is \<open>None\<close> when an end-tag arrives while no element is open.
\<close>

fun nesting :: "nat \<Rightarrow> xml_Token list \<Rightarrow> nat option" where
  "nesting k [] = Some k"
| "nesting k (xml_StartElement name attr # toks) = nesting (Suc k) toks"
| "nesting k (xml_EndElement name # toks) = (case k of 0 \<Rightarrow> None | Suc j \<Rightarrow> nesting j toks)"
| "nesting k (tok # toks) = nesting k toks"

text \<open>
  \<open>open_elements stk toks\<close> gives the names of the elements that are open after the tokens
  \<open>toks\<close>, innermost first, starting with the open elements \<open>stk\<close>; it is \<open>None\<close> when an
  end-tag comes that closes no open element or not the innermost one.
\<close>

fun open_elements :: "xml_Name list \<Rightarrow> xml_Token list \<Rightarrow> xml_Name list option" where
  "open_elements stk [] = Some stk"
| "open_elements stk (xml_StartElement name attr # toks) = open_elements (name # stk) toks"
| "open_elements stk (xml_EndElement name # toks) =
     (case stk of
        [] \<Rightarrow> None
      | s # stk' \<Rightarrow> if s = name then open_elements stk' toks else None)"
| "open_elements stk (tok # toks) = open_elements stk toks"

text \<open>A pointer node whose target is in the store; a node that is a value.\<close>

fun allocated :: "world \<Rightarrow> XMLNode \<Rightarrow> bool" where
  "allocated w (ElementP a) = (elements w a \<noteq> None)"
| "allocated w (DocumentP d) = (documents w d \<noteq> None)"
| "allocated w n = False"

fun value_node :: "XMLNode \<Rightarrow> bool" where
  "value_node (ElementP a) = False"
| "value_node (DocumentP d) = False"
| "value_node n = True"

definition stack_allocated :: "pstate \<Rightarrow> bool" where
  "stack_allocated st \<longleftrightarrow>
     allocated (wld st) (cur st) \<and> list_all (allocated (wld st)) (eltstack st)"

text \<open>Two neighbours in a list of children that are both character data.\<close>

fun is_CharData :: "XMLNode \<Rightarrow> bool" where
  "is_CharData (CharData i s) = True"
| "is_CharData n = False"

fun adjacent_chardata :: "XMLNode list \<Rightarrow> bool" where
  "adjacent_chardata (a # b # rest) =
     ((is_CharData a \<and> is_CharData b) \<or> adjacent_chardata (b # rest))"
| "adjacent_chardata cs = False"

text \<open>
  The test of the attribute loop in \<^verbatim>\<open>Element.Append\<close>:
  \<^verbatim>\<open>attr.Name.Local == t.Name && attr.Name.Space == t.Namespace\<close>.
\<close>

definition same_name :: "Attribute \<Rightarrow> xml_Attr \<Rightarrow> bool" where
  "same_name t attr \<longleftrightarrow>
     Local (AttrName attr) = attr_Name t \<and> Space (AttrName attr) = attr_Namespace t"

text \<open>An element with the attributes \<^verbatim>\<open>a="1" b="2"\<close>, for the examples.\<close>

definition elt_ab :: Element where
  "elt_ab =
     \<lparr>ID = 0, Name = ''e'', Prefix = [], Parent = None, Namespaces = [], children = [],
      attributes = [xml_Attr (xml_Name [] ''a'') ''1'', xml_Attr (xml_Name [] ''b'') ''2'']\<rparr>"

text \<open>
  The world with every attribute's namespace forgotten: what is left of each attribute is
  its local name and its value.
\<close>

definition erase_space :: "xml_Attr \<Rightarrow> xml_Attr" where
  "erase_space att = xml_Attr (xml_Name [] (Local (AttrName att))) (AttrValue att)"

definition erase_spaces :: "world \<Rightarrow> world" where
  "erase_spaces w =
     w\<lparr>elements := (\<lambda>a. map_option (\<lambda>elt. elt\<lparr>attributes := map erase_space (attributes elt)\<rparr>)
                            (elements w a))\<rparr>"




text \<open>
  What \<^verbatim>\<open>Parse\<close> builds of \<^verbatim>\<open><r xmlns:a="urn:x" a:k="v"/>\<close> and of
  \<^verbatim>\<open><a:r xmlns:a="urn:x"><a:c/></a:r>\<close> in a fresh process, and the text of each.
\<close>

definition world_ns_attr :: world where
  "world_ns_attr =
     \<lparr>elements =
        [1 \<mapsto> \<lparr>ID = 1, Name = ''r'', Prefix = [], Parent = Some (DocumentP 0),
                 Namespaces = [(''a'', ''urn:x'')], children = [],
                 attributes = [xml_Attr (xml_Name ''urn:x'' ''k'') ''v'']\<rparr>],
      documents = [0 \<mapsto> \<lparr>doc_ID = 0, doc_children = [ElementP 1]\<rparr>],
      next_addr = 2, ids = 2\<rparr>"

definition text_ns_attr :: string where
  "text_ns_attr =
     ''<r xmlns:a='' @ [CHR 0x22] @ ''urn:x'' @ [CHR 0x22] @ '' k='' @ [CHR 0x22] @ ''v''
       @ [CHR 0x22] @ '' />''"

definition world_ns_nested :: world where
  "world_ns_nested =
     \<lparr>elements =
        [2 \<mapsto> \<lparr>ID = 2, Name = ''c'', Prefix = ''a'', Parent = Some (ElementP 1),
                 Namespaces = [(''a'', ''urn:x'')], children = [], attributes = []\<rparr>,
         1 \<mapsto> \<lparr>ID = 1, Name = ''r'', Prefix = ''a'', Parent = Some (DocumentP 0),
                 Namespaces = [(''a'', ''urn:x'')], children = [ElementP 2], attributes = []\<rparr>],
      documents = [0 \<mapsto> \<lparr>doc_ID = 0, doc_children = [ElementP 1]\<rparr>],
      next_addr = 3, ids = 3\<rparr>"


text \<open>
  The identities met in a pre-order, depth-first walk from a node: the node's
  \<^verbatim>\<open>getID()\<close>, then the walks of its \<^verbatim>\<open>Children()\<close> from first to last. The first
  argument bounds the depth of the walk.
\<close>

fun preorder_ids :: "nat \<Rightarrow> world \<Rightarrow> XMLNode \<Rightarrow> failure + int list"
  and preorder_ids_list :: "nat \<Rightarrow> world \<Rightarrow> XMLNode list \<Rightarrow> failure + int list"
  where
  "preorder_ids 0 w n = Inl OutOfFuel"
| "preorder_ids (Suc k) w n =
     (case getID w n of
        Inl f \<Rightarrow> Inl f
      | Inr i \<Rightarrow>
          (case Children w n of
             Inl f \<Rightarrow> Inl f
           | Inr cs \<Rightarrow>
               (case preorder_ids_list k w cs of Inl f \<Rightarrow> Inl f | Inr is \<Rightarrow> Inr (i # is))))"
| "preorder_ids_list k w [] = Inr []"
| "preorder_ids_list k w (c # cs) =
     (case preorder_ids k w c of
        Inl f \<Rightarrow> Inl f
      | Inr is1 \<Rightarrow>
          (case preorder_ids_list k w cs of Inl f \<Rightarrow> Inl f | Inr is2 \<Rightarrow> Inr (is1 @ is2)))"

text \<open>
  What \<^verbatim>\<open>Parse\<close> builds of \<^verbatim>\<open><a>x<![CDATA[y]]></a>\<close> in a fresh process, and of
  \<^verbatim>\<open><r xmlns:a="urn:x" k="v" />\<close>.
\<close>

definition world_merged :: world where
  "world_merged =
     \<lparr>elements =
        [1 \<mapsto> \<lparr>ID = 1, Name = ''a'', Prefix = [], Parent = Some (DocumentP 0),
                 Namespaces = [], children = [CharData 0 ''xy''], attributes = []\<rparr>],
      documents = [0 \<mapsto> \<lparr>doc_ID = 0, doc_children = [ElementP 1]\<rparr>],
      next_addr = 2, ids = 4\<rparr>"

definition world_plain_attr :: world where
  "world_plain_attr =
     \<lparr>elements =
        [1 \<mapsto> \<lparr>ID = 1, Name = ''r'', Prefix = [], Parent = Some (DocumentP 0),
                 Namespaces = [(''a'', ''urn:x'')], children = [],
                 attributes = [xml_Attr (xml_Name [] ''k'') ''v'']\<rparr>],
      documents = [0 \<mapsto> \<lparr>doc_ID = 0, doc_children = [ElementP 1]\<rparr>],
      next_addr = 2, ids = 2\<rparr>"

text \<open>
  The children of a container as the store has them, the parent an element records, and
  how often a list of children holds the pointer to an element.
\<close>

fun kids :: "world \<Rightarrow> XMLNode \<Rightarrow> XMLNode list" where
  "kids w (ElementP a) = (case elements w a of None \<Rightarrow> [] | Some elt \<Rightarrow> children elt)"
| "kids w (DocumentP d) = (case documents w d of None \<Rightarrow> [] | Some xr \<Rightarrow> doc_children xr)"
| "kids w n = []"

definition parent_of :: "world \<Rightarrow> addr \<Rightarrow> XMLNode option" where
  "parent_of w a = (case elements w a of None \<Rightarrow> None | Some elt \<Rightarrow> Parent elt)"

definition refs :: "world \<Rightarrow> XMLNode \<Rightarrow> addr \<Rightarrow> nat" where
  "refs w q a = count_list (kids w q) (ElementP a)"

text \<open>
  A store as allocation leaves it: every object, and every element that a list of
  children points to, lies below the next free address.
\<close>

definition world_ok :: "world \<Rightarrow> bool" where
  "world_ok w \<longleftrightarrow>
     (\<forall>a. elements w a \<noteq> None \<longrightarrow> a < next_addr w)
     \<and> (\<forall>d. documents w d \<noteq> None \<longrightarrow> d < next_addr w)
     \<and> (\<forall>q a. 0 < refs w q a \<longrightarrow> a < next_addr w)"

text \<open>
  The state of a build whose document is at the address \<open>b\<close>: the store is as allocation
  leaves it; the current node and the stack hold the document and elements made by this
  build; an element made by this build is pointed to only by the children of the parent
  it records, and exactly once.
\<close>

definition building :: "addr \<Rightarrow> pstate \<Rightarrow> bool" where
  "building b st \<longleftrightarrow>
     world_ok (wld st) \<and> b < next_addr (wld st) \<and> documents (wld st) b \<noteq> None
     \<and> (\<forall>n \<in> set (cur st # eltstack st).
           n = DocumentP b \<or> (\<exists>a. n = ElementP a \<and> b < a \<and> elements (wld st) a \<noteq> None))
     \<and> (\<forall>q a. b < a \<and> 0 < refs (wld st) q a \<longrightarrow>
           parent_of (wld st) a = Some q \<and> refs (wld st) q a = 1)
     \<and> (\<forall>a. b < a \<and> a < next_addr (wld st) \<longrightarrow>
           (\<exists>p. parent_of (wld st) a = Some p \<and> refs (wld st) p a = 1))"

text \<open>
  Worlds for the examples of appending by hand: two empty documents and an element with
  no parent, appended to the first document and then to the second; and two elements,
  the second appended to the first.
\<close>

definition world_two_docs :: world where
  "world_two_docs =
     \<lparr>elements =
        [2 \<mapsto> \<lparr>ID = 2, Name = ''e'', Prefix = [], Parent = None, Namespaces = [],
                 children = [], attributes = []\<rparr>],
      documents = [0 \<mapsto> \<lparr>doc_ID = 0, doc_children = []\<rparr>,
                   1 \<mapsto> \<lparr>doc_ID = 1, doc_children = []\<rparr>],
      next_addr = 3, ids = 3\<rparr>"

definition world_appended_once :: world where
  "world_appended_once = projr (XMLDocument_Append world_two_docs 0 (ElementP 2))"

definition world_appended_twice :: world where
  "world_appended_twice = projr (XMLDocument_Append world_appended_once 1 (ElementP 2))"

definition world_two_elts :: world where
  "world_two_elts =
     \<lparr>elements =
        [0 \<mapsto> \<lparr>ID = 0, Name = ''root'', Prefix = [], Parent = None, Namespaces = [],
                 children = [], attributes = []\<rparr>,
         1 \<mapsto> \<lparr>ID = 1, Name = ''element'', Prefix = [], Parent = None, Namespaces = [],
                 children = [], attributes = []\<rparr>],
      documents = Map.empty, next_addr = 2, ids = 2\<rparr>"

definition world_elt_appended :: world where
  "world_elt_appended = projr (Element_Append world_two_elts 0 (ElementP 1))"

text \<open>
  The shape of what a build with the document at \<open>b\<close> has made: a child of the document
  or of an element of the build is a value, or an element of the store that was made
  after its container; and no element of the build has two neighbouring character data
  among its children.
\<close>

fun addr_of :: "XMLNode \<Rightarrow> addr" where
  "addr_of (ElementP a) = a"
| "addr_of (DocumentP d) = d"
| "addr_of n = 0"

definition made :: "addr \<Rightarrow> XMLNode \<Rightarrow> bool" where
  "made b q \<longleftrightarrow> q = DocumentP b \<or> (\<exists>c. q = ElementP c \<and> b < c)"

definition shaped :: "addr \<Rightarrow> world \<Rightarrow> bool" where
  "shaped b w \<longleftrightarrow>
     (\<forall>q m. made b q \<and> m \<in> set (kids w q) \<longrightarrow>
        value_node m
        \<or> (\<exists>a. m = ElementP a \<and> addr_of q < a \<and> a < next_addr w \<and> elements w a \<noteq> None))
     \<and> (\<forall>c. b < c \<longrightarrow> \<not> adjacent_chardata (kids w (ElementP c)))"

section \<open>Properties of escaping\<close>

lemma escape_append: "escape (xs @ ys) = escape xs @ escape ys"
  by (simp add: escape_def Replace_def)

lemma escape_Cons: "escape (c # cs) = escape [c] @ escape cs"
  by (simp add: escape_def Replace_def)

lemma escape_single:
  "escape [c] =
     (if c = CHR ''&'' then ''&amp;''
      else if c = CHR ''<'' then ''&lt;''
      else if c = CHR 0x22 then ''&quot;''
      else [c])"
  by (simp add: escape_def Replace_def entitiesReplacer_def)

text \<open>
  C8. Serializing character data replaces, byte by byte, exactly the ampersand, the
  less-than sign and the double quote by \<^verbatim>\<open>&amp;\<close>, \<^verbatim>\<open>&lt;\<close> and \<^verbatim>\<open>&quot;\<close>; every other
  byte, the greater-than sign and the apostrophe among them, is copied. The character
  data \<^verbatim>\<open>a<b&c"d\<close> serializes to \<^verbatim>\<open>a&lt;b&amp;c&quot;d\<close>.
\<close>

theorem chardata_escapes_three_characters:
  "CharData_toxml (xs @ ys) printed = CharData_toxml xs printed @ CharData_toxml ys printed
   \<and> CharData_toxml [] printed = []
   \<and> CharData_toxml [c] printed =
       (if c = CHR ''&'' then ''&amp;''
        else if c = CHR ''<'' then ''&lt;''
        else if c = CHR 0x22 then ''&quot;''
        else [c])
   \<and> CharData_toxml ''>'' printed = ''>''
   \<and> CharData_toxml [CHR 0x27] printed = [CHR 0x27]
   \<and> CharData_toxml (''a<b&c'' @ [CHR 0x22] @ ''d'') printed = ''a&lt;b&amp;c&quot;d''"
  by (simp add: CharData_toxml_def escape_def Replace_def entitiesReplacer_def)

section \<open>The builder runs on every stream that does not close more than it opens\<close>

lemmas run_defs = Parse_def Parse_init_def recv_ids_def NewElement_def XMLDocument_Append_def
  Element_Append_def elt_Append_def setParent_def resolve_prefix_def copy_namespaces_def
  start_attribute_def world0_def

lemma Append_total:
  assumes "allocated w c" and "value_node n \<or> allocated w n"
  shows "\<exists>w'. Append w c n = Inr w'"
  using assms
  by (cases c; cases n)
     (auto simp: Element_Append_def XMLDocument_Append_def setParent_def split: option.splits)

lemma Append_allocated:
  assumes "Append w c n = Inr w'" and "allocated w m"
  shows "allocated w' m"
  using assms
  by (cases c; cases n; cases m)
     (auto simp: Element_Append_def XMLDocument_Append_def setParent_def
           split: option.splits if_splits)

lemma allocated_ids [simp]: "allocated (w\<lparr>ids := i\<rparr>) m = allocated w m"
  by (cases m) auto

lemma allocated_new_element:
  "allocated w m \<Longrightarrow> allocated (w\<lparr>elements := (elements w)(a \<mapsto> e)\<rparr>) m"
  by (cases m) auto

lemma Parse_token_value_node:
  assumes "stack_allocated st" and "value_node n"
  shows "\<exists>w'. Append (snd (recv_ids (wld st))) (cur st) n = Inr w'
            \<and> stack_allocated (st\<lparr>wld := w'\<rparr>)"
proof -
  let ?w1 = "snd (recv_ids (wld st))"
  have a: "allocated ?w1 (cur st)"
    using assms(1) by (simp add: stack_allocated_def recv_ids_def)
  then obtain w' where w': "Append ?w1 (cur st) n = Inr w'"
    using Append_total assms(2) by blast
  have "allocated w' m" if "allocated (wld st) m" for m
    using that Append_allocated[OF w', of m] by (simp add: recv_ids_def)
  with assms(1) have "stack_allocated (st\<lparr>wld := w'\<rparr>)"
    by (simp add: stack_allocated_def list_all_iff)
  with w' show ?thesis by blast
qed

lemma Parse_token_start:
  assumes "stack_allocated st"
  shows "\<exists>st'. Parse_token ord (xml_StartElement name attr) st = Inr st' \<and> stack_allocated st'
           \<and> length (eltstack st') = Suc (length (eltstack st))"
proof -
  let ?tmp = "next_addr (wld st)"
  define w1 where "w1 = snd (NewElement (wld st))"
  have ne: "NewElement (wld st) = (?tmp, w1)"
    by (simp add: w1_def NewElement_def)
  define w2 where "w2 = snd (recv_ids w1)"
  have ri: "recv_ids w1 = (ids (wld st), w2)"
    by (simp add: w2_def w1_def recv_ids_def NewElement_def)
  have w2_alloc: "allocated w2 m" if "allocated (wld st) m" for m
    using that by (cases m) (auto simp: w2_def w1_def recv_ids_def NewElement_def)
  have cur2: "allocated w2 (cur st)"
    using assms w2_alloc by (simp add: stack_allocated_def)
  obtain inherited where inh:
    "(case cur st of
        ElementP c \<Rightarrow>
          (case elements w2 c of
             None \<Rightarrow> Inl NilDereference
           | Some celt \<Rightarrow> Inr (copy_namespaces ord (Namespaces celt)))
      | _ \<Rightarrow> Inr []) = Inr inherited"
    using cur2 by (cases "cur st") auto
  obtain namespaces attrs where na:
    "foldl start_attribute (inherited, []) attr = (namespaces, attrs)"
    by (cases "foldl start_attribute (inherited, []) attr") auto
  define e where "e = \<lparr>ID = ids (wld st), Name = Local name,
     Prefix = resolve_prefix ord namespaces (Space name),
     Parent = Some (cur st), Namespaces = namespaces, children = [],
     attributes = attrs\<rparr>"
  define w2' where "w2' = w2\<lparr>elements := (elements w2)(?tmp \<mapsto> e)\<rparr>"
  have w2'_alloc: "allocated w2' m" if "allocated (wld st) m" for m
    using w2_alloc[OF that] by (simp add: w2'_def allocated_new_element)
  have tmp_alloc: "allocated w2' (ElementP ?tmp)"
    by (simp add: w2'_def)
  obtain w3 where w3: "Append w2' (cur st) (ElementP ?tmp) = Inr w3"
    using Append_total[of w2' "cur st" "ElementP ?tmp"] w2'_alloc assms tmp_alloc
    by (auto simp: stack_allocated_def)
  have step: "Parse_token ord (xml_StartElement name attr) st =
      Inr \<lparr>cur = ElementP ?tmp, eltstack = eltstack st @ [ElementP ?tmp], wld = w3\<rparr>"
    using w3 by (simp add: ne ri inh na w2'_def e_def)
  have "allocated w3 m" if "allocated (wld st) m" for m
    using Append_allocated[OF w3] w2'_alloc that by blast
  moreover have "allocated w3 (ElementP ?tmp)"
    using Append_allocated[OF w3 tmp_alloc] .
  ultimately have "stack_allocated \<lparr>cur = ElementP ?tmp, eltstack = eltstack st @ [ElementP ?tmp], wld = w3\<rparr>"
    using assms by (simp add: stack_allocated_def list_all_iff)
  with step show ?thesis by simp
qed

lemma Parse_token_total:
  assumes "stack_allocated st"
    and "\<forall>name. tok = xml_EndElement name \<longrightarrow> 2 \<le> length (eltstack st)"
  shows "\<exists>st'. Parse_token ord tok st = Inr st' \<and> stack_allocated st'
           \<and> length (eltstack st') =
               (case tok of xml_StartElement name attr \<Rightarrow> Suc (length (eltstack st))
                | xml_EndElement name \<Rightarrow> length (eltstack st) - 1
                | _ \<Rightarrow> length (eltstack st))"
proof (cases tok)
  case (xml_StartElement name attr)
  with Parse_token_start[OF assms(1)] show ?thesis by simp
next
  case (xml_EndElement name)
  with assms show ?thesis
    by (auto simp: stack_allocated_def list_all_iff dest: in_set_takeD)
next
  case (xml_CharData v)
  with Parse_token_value_node[OF assms(1), of "CharData (ids (wld st)) v"]
  show ?thesis by (auto simp: recv_ids_def)
next
  case (xml_Comment v)
  with Parse_token_value_node[OF assms(1), of "Comment (ids (wld st)) v"]
  show ?thesis by (auto simp: recv_ids_def)
next
  case (xml_ProcInst t i)
  with Parse_token_value_node[OF assms(1), of "ProcInst (ids (wld st)) t i"]
  show ?thesis by (auto simp: recv_ids_def)
next
  case (xml_Directive v)
  with assms show ?thesis by simp
qed


lemma Parse_loop_append:
  "Parse_loop ord (xs @ ys) st =
     (case Parse_loop ord xs st of Inl f \<Rightarrow> Inl f | Inr st' \<Rightarrow> Parse_loop ord ys st')"
  by (induction xs arbitrary: st) (auto split: sum.splits)

lemma Parse_loop_nesting:
  assumes "nesting k toks = Some k'" and "stack_allocated st" and "length (eltstack st) = Suc k"
  shows "\<exists>st'. Parse_loop ord toks st = Inr st' \<and> stack_allocated st'
           \<and> length (eltstack st') = Suc k'"
  using assms
proof (induction toks arbitrary: k st)
  case Nil
  then show ?case by simp
next
  case (Cons tok toks)
  have no_underflow: "\<forall>name. tok = xml_EndElement name \<longrightarrow> 2 \<le> length (eltstack st)"
    using Cons.prems by (auto split: nat.splits)
  from Parse_token_total[OF Cons.prems(2) no_underflow, of ord]
  obtain st1 where st1: "Parse_token ord tok st = Inr st1" "stack_allocated st1"
    and len: "length (eltstack st1) =
               (case tok of xml_StartElement name attr \<Rightarrow> Suc (length (eltstack st))
                | xml_EndElement name \<Rightarrow> length (eltstack st) - 1
                | _ \<Rightarrow> length (eltstack st))"
    by blast
  obtain k1 where k1: "nesting k1 toks = Some k'" "length (eltstack st1) = Suc k1"
    using Cons.prems(1,3) len by (cases tok) (auto split: nat.splits)
  from Cons.IH[OF k1(1) st1(2) k1(2)] st1(1) show ?case by simp
qed

lemma Parse_init_allocated:
  "stack_allocated (snd (Parse_init w)) \<and> length (eltstack (snd (Parse_init w))) = 1
   \<and> fst (Parse_init w) = next_addr w"
  by (simp add: Parse_init_def recv_ids_def stack_allocated_def)

section \<open>The builder on the streams of the decoder\<close>

lemma open_elements_nesting:
  "open_elements stk toks = Some stk' \<Longrightarrow> nesting (length stk) toks = Some (length stk')"
proof (induction stk toks rule: open_elements.induct)
  case (3 stk name toks)
  then show ?case
    by (cases stk) (auto split: if_splits)
qed auto

lemma open_elements_append:
  "open_elements stk (xs @ ys) =
     (case open_elements stk xs of None \<Rightarrow> None | Some stk' \<Rightarrow> open_elements stk' ys)"
proof (induction stk xs rule: open_elements.induct)
  case (3 stk name toks)
  then show ?case
    by (cases stk) auto
qed auto

lemma dec_Token_passes:
  "open_elements stk xs = Some stk' \<Longrightarrow>
     dec_Token stk (xs @ ys) e = (xs @ fst (dec_Token stk' ys e), snd (dec_Token stk' ys e))"
proof (induction stk xs rule: open_elements.induct)
  case (3 stk name toks)
  then show ?case
    by (cases stk) (auto split: if_splits prod.splits)
qed (auto split: prod.splits)

lemma dec_Token_delivers:
  "dec_Token stk raw e = (toks, e') \<Longrightarrow>
     \<exists>stk'. open_elements stk toks = Some stk'
            \<and> (e' = None \<longrightarrow> stk' = [] \<and> e = None \<and> toks = raw)"
proof (induction stk raw e arbitrary: toks e' rule: dec_Token.induct)
  case (4 stk name raw e)
  then show ?case
    by (cases stk) (auto split: if_splits prod.splits simp: xml_Name.expand)
qed (auto split: prod.splits if_splits)


lemma Parse_token_bottom:
  assumes "Parse_token ord tok st = Inr st'" and "eltstack st \<noteq> []"
  shows "eltstack st' \<noteq> [] \<and> hd (eltstack st') = hd (eltstack st)"
proof (cases tok)
  case (xml_StartElement name attr)
  with assms show ?thesis
    by (auto split: prod.splits sum.splits)
next
  case (xml_EndElement name)
  with assms show ?thesis
    by (cases "eltstack st") (auto split: if_splits)
qed (use assms in \<open>auto split: prod.splits sum.splits\<close>)

lemma Parse_loop_bottom:
  assumes "Parse_loop ord toks st = Inr st'" and "eltstack st \<noteq> []"
  shows "eltstack st' \<noteq> [] \<and> hd (eltstack st') = hd (eltstack st)"
  using assms
proof (induction toks arbitrary: st)
  case (Cons tok toks)
  then obtain st1 where s: "Parse_token ord tok st = Inr st1" "Parse_loop ord toks st1 = Inr st'"
    by (auto split: sum.splits)
  from Parse_token_bottom[OF s(1) Cons.prems(2)] Cons.IH[OF s(2)] show ?case
    by simp
qed simp

lemma Parse_loop_open_elements:
  assumes "open_elements [] toks = Some stk"
  shows "\<exists>st. Parse_loop ord toks (snd (Parse_init w)) = Inr st
            \<and> length (eltstack st) = Suc (length stk)
            \<and> hd (eltstack st) = DocumentP (fst (Parse_init w))"
proof -
  let ?st0 = "snd (Parse_init w)"
  from Parse_init_allocated[of w]
  have a: "stack_allocated ?st0" and l: "length (eltstack ?st0) = Suc 0"
    by simp_all
  from open_elements_nesting[OF assms] have n: "nesting 0 toks = Some (length stk)"
    by simp
  from Parse_loop_nesting[OF n a l, of ord]
  obtain st where st: "Parse_loop ord toks ?st0 = Inr st" "length (eltstack st) = Suc (length stk)"
    by blast
  have e0: "eltstack ?st0 = [DocumentP (fst (Parse_init w))]"
    by (simp add: Parse_init_def recv_ids_def)
  from Parse_loop_bottom[OF st(1)] e0 have "hd (eltstack st) = DocumentP (fst (Parse_init w))"
    by simp
  with st show ?thesis by blast
qed

lemma Parse_split:
  "Parse ord s w =
     (case Parse_loop ord (fst s) (snd (Parse_init w)) of
        Inl f \<Rightarrow> Inl f
      | Inr st \<Rightarrow> (case snd s of None \<Rightarrow> Inr (fst (Parse_init w), wld st)
                   | Some err \<Rightarrow> Inl (TokenError err)))"
  by (cases "Parse_init w") (auto simp: Parse_def split: sum.splits option.splits)

text \<open>
  C2. An end-tag that comes while no element is open, the stack of the builder holding
  only the document, is not handed to the builder: \<^verbatim>\<open>dec.Token()\<close> returns a syntax
  error for it, and \<^verbatim>\<open>Parse\<close> returns that error and no document (\<^verbatim>\<open>return nil, err\<close>),
  whatever follows in the input. On the stream of any input the build ends with the
  document or with the error of the decoder, never with a panic. And every end-tag that
  \<^verbatim>\<open>Parse\<close> receives finds an element above the document on the stack, so that the index
  in \<^verbatim>\<open>eltstack[len(eltstack)-2]\<close> is in range.
\<close>

theorem unexpected_end_tag_is_an_error:
  "(open_elements [] before = Some [] \<longrightarrow>
      (\<exists>st. Parse_loop ord before (snd (Parse_init w)) = Inr st
          \<and> eltstack st = [DocumentP (fst (Parse_init w))])
      \<and> dec_Token [] (before @ xml_EndElement name # rest) e =
          (before, Some (''unexpected end element </'' @ Local name @ ''>''))
      \<and> Parse ord (dec_Token [] (before @ xml_EndElement name # rest) e) w =
          Inl (TokenError (''unexpected end element </'' @ Local name @ ''>'')))
   \<and> ((\<exists>d w'. Parse ord (dec_Token [] raw e) w = Inr (d, w'))
        \<or> (\<exists>err. Parse ord (dec_Token [] raw e) w = Inl (TokenError err)))
   \<and> (\<forall>b n a. fst (dec_Token [] raw e) = b @ xml_EndElement n # a \<longrightarrow>
         (\<exists>st. Parse_loop ord b (snd (Parse_init w)) = Inr st \<and> 2 \<le> length (eltstack st)))"
proof (intro conjI impI allI)
  assume b: "open_elements [] before = Some []"
  from Parse_loop_open_elements[OF b, of ord w]
  obtain st where st: "Parse_loop ord before (snd (Parse_init w)) = Inr st"
    "length (eltstack st) = Suc 0" "hd (eltstack st) = DocumentP (fst (Parse_init w))"
    by auto
  from st(2,3) have "eltstack st = [DocumentP (fst (Parse_init w))]"
    by (cases "eltstack st") auto
  with st(1) show "\<exists>st. Parse_loop ord before (snd (Parse_init w)) = Inr st
          \<and> eltstack st = [DocumentP (fst (Parse_init w))]"
    by blast
  from dec_Token_passes[OF b, of "xml_EndElement name # rest" e]
  show d: "dec_Token [] (before @ xml_EndElement name # rest) e =
          (before, Some (''unexpected end element </'' @ Local name @ ''>''))"
    by simp
  show "Parse ord (dec_Token [] (before @ xml_EndElement name # rest) e) w =
          Inl (TokenError (''unexpected end element </'' @ Local name @ ''>''))"
    unfolding d using st(1) by (simp add: Parse_split)
next
  obtain toks e' where d: "dec_Token [] raw e = (toks, e')"
    by (cases "dec_Token [] raw e")
  from dec_Token_delivers[OF d] obtain stk where "open_elements [] toks = Some stk"
    by blast
  from Parse_loop_open_elements[OF this, of ord w]
  obtain st where "Parse_loop ord toks (snd (Parse_init w)) = Inr st"
    by blast
  then show "(\<exists>d w'. Parse ord (dec_Token [] raw e) w = Inr (d, w'))
        \<or> (\<exists>err. Parse ord (dec_Token [] raw e) w = Inl (TokenError err))"
    unfolding d by (cases e') (simp_all add: Parse_split)
next
  fix b n a
  assume f: "fst (dec_Token [] raw e) = b @ xml_EndElement n # a"
  obtain toks e' where d: "dec_Token [] raw e = (toks, e')"
    by (cases "dec_Token [] raw e")
  from dec_Token_delivers[OF d] f d obtain stk where
    "open_elements [] (b @ xml_EndElement n # a) = Some stk"
    by auto
  then obtain s stk1 where o: "open_elements [] b = Some (s # stk1)"
    by (cases "open_elements [] b"; cases "the (open_elements [] b)")
       (auto simp: open_elements_append)
  from Parse_loop_open_elements[OF o, of ord w]
  show "\<exists>st. Parse_loop ord b (snd (Parse_init w)) = Inr st \<and> 2 \<le> length (eltstack st)"
    by auto
qed

theorem unexpected_end_tag_is_an_error_witness:
  "open_elements [] [xml_StartElement (xml_Name [] ''a'') [], xml_EndElement (xml_Name [] ''a'')]
     = Some []
   \<and> dec_Token [] [xml_StartElement (xml_Name [] ''a'') [], xml_EndElement (xml_Name [] ''a''),
                    xml_EndElement (xml_Name [] ''a'')] None
       = ([xml_StartElement (xml_Name [] ''a'') [], xml_EndElement (xml_Name [] ''a'')],
          Some ''unexpected end element </a>'')
   \<and> Parse id (dec_Token [] [xml_StartElement (xml_Name [] ''a'') [],
                             xml_EndElement (xml_Name [] ''a''),
                             xml_EndElement (xml_Name [] ''a'')] None) world0
       = Inl (TokenError ''unexpected end element </a>'')
   \<and> Parse id (dec_Token [] [xml_EndElement (xml_Name [] ''a'')] None) world0
       = Inl (TokenError ''unexpected end element </a>'')
   \<and> fst (dec_Token [] [xml_StartElement (xml_Name [] ''a'') [],
                        xml_EndElement (xml_Name [] ''a'')] None)
       = [xml_StartElement (xml_Name [] ''a'') []] @ xml_EndElement (xml_Name [] ''a'') # []
   \<and> (\<exists>st. Parse_loop id [xml_StartElement (xml_Name [] ''a'') []] (snd (Parse_init world0))
              = Inr st \<and> 2 \<le> length (eltstack st))"
proof -
  let ?a = "xml_Name [] ''a''"
  have o: "open_elements [] [xml_StartElement ?a [], xml_EndElement ?a] = Some []"
    and o': "open_elements [] [] = Some []"
    and f: "fst (dec_Token [] [xml_StartElement ?a [], xml_EndElement ?a] None)
              = [xml_StartElement ?a []] @ xml_EndElement ?a # []"
    by simp_all
  note t1 = unexpected_end_tag_is_an_error
              [of "[xml_StartElement ?a [], xml_EndElement ?a]" id world0 ?a "[]" None
                  "[xml_StartElement ?a [], xml_EndElement ?a]"]
  note t2 = unexpected_end_tag_is_an_error[of "[]" id world0 ?a "[]" None "[]"]
  from t1 o have
    "dec_Token [] ([xml_StartElement ?a [], xml_EndElement ?a] @ xml_EndElement ?a # []) None
       = ([xml_StartElement ?a [], xml_EndElement ?a], Some (''unexpected end element </'' @ Local ?a @ ''>''))"
    and "Parse id (dec_Token [] ([xml_StartElement ?a [], xml_EndElement ?a] @ xml_EndElement ?a # []) None) world0
       = Inl (TokenError (''unexpected end element </'' @ Local ?a @ ''>''))"
    by blast+
  moreover from t2 o' have
    "Parse id (dec_Token [] ([] @ xml_EndElement ?a # []) None) world0
       = Inl (TokenError (''unexpected end element </'' @ Local ?a @ ''>''))"
    by blast
  moreover from t1 f have
    "\<exists>st. Parse_loop id [xml_StartElement ?a []] (snd (Parse_init world0)) = Inr st
          \<and> 2 \<le> length (eltstack st)"
    by blast
  ultimately show ?thesis
    using o f by simp
qed

text \<open>
  C3. When the input ends while elements are open, which the stack of the builder then
  holds above the document, the decoder ends the stream with the syntax error
  \<^verbatim>\<open>unexpected EOF\<close> and not with \<^verbatim>\<open>io.EOF\<close>, and \<^verbatim>\<open>Parse\<close> returns that error and no
  document. When the input ends with every element closed, \<^verbatim>\<open>Parse\<close> returns the
  document. Whenever \<^verbatim>\<open>Parse\<close> returns a document, the input has ended with every
  element closed and the stack holds the document alone.
\<close>

theorem unclosed_elements_are_an_error:
  "(open_elements [] raw = Some (n # stk) \<longrightarrow>
      (\<exists>st. Parse_loop ord raw (snd (Parse_init w)) = Inr st
          \<and> length (eltstack st) = Suc (Suc (length stk))
          \<and> dec_Token [] raw None = (raw, Some ''unexpected EOF'')
          \<and> Parse ord (dec_Token [] raw None) w = Inl (TokenError ''unexpected EOF'')))
   \<and> (open_elements [] raw = Some [] \<longrightarrow>
      (\<exists>st. Parse_loop ord raw (snd (Parse_init w)) = Inr st
          \<and> eltstack st = [DocumentP (fst (Parse_init w))]
          \<and> dec_Token [] raw None = (raw, None)
          \<and> Parse ord (dec_Token [] raw None) w = Inr (fst (Parse_init w), wld st)))
   \<and> (\<forall>d w'. Parse ord (dec_Token [] raw e) w = Inr (d, w') \<longrightarrow>
         e = None \<and> open_elements [] raw = Some []
         \<and> (\<exists>st. Parse_loop ord raw (snd (Parse_init w)) = Inr st
                \<and> eltstack st = [DocumentP d] \<and> w' = wld st))"
proof (intro conjI impI allI)
  assume o: "open_elements [] raw = Some (n # stk)"
  from Parse_loop_open_elements[OF o, of ord w]
  obtain st where st: "Parse_loop ord raw (snd (Parse_init w)) = Inr st"
    "length (eltstack st) = Suc (Suc (length stk))"
    by auto
  from dec_Token_passes[OF o, of "[]" None]
  have d: "dec_Token [] raw None = (raw, Some ''unexpected EOF'')"
    by simp
  have "Parse ord (dec_Token [] raw None) w = Inl (TokenError ''unexpected EOF'')"
    unfolding d using st(1) by (simp add: Parse_split)
  with st d show "\<exists>st. Parse_loop ord raw (snd (Parse_init w)) = Inr st
          \<and> length (eltstack st) = Suc (Suc (length stk))
          \<and> dec_Token [] raw None = (raw, Some ''unexpected EOF'')
          \<and> Parse ord (dec_Token [] raw None) w = Inl (TokenError ''unexpected EOF'')"
    by blast
next
  assume o: "open_elements [] raw = Some []"
  from Parse_loop_open_elements[OF o, of ord w]
  obtain st where st: "Parse_loop ord raw (snd (Parse_init w)) = Inr st"
    "length (eltstack st) = Suc 0" "hd (eltstack st) = DocumentP (fst (Parse_init w))"
    by auto
  from st(2,3) have e: "eltstack st = [DocumentP (fst (Parse_init w))]"
    by (cases "eltstack st") auto
  from dec_Token_passes[OF o, of "[]" None]
  have d: "dec_Token [] raw None = (raw, None)"
    by simp
  have "Parse ord (dec_Token [] raw None) w = Inr (fst (Parse_init w), wld st)"
    unfolding d using st(1) by (simp add: Parse_split)
  with st(1) e d show "\<exists>st. Parse_loop ord raw (snd (Parse_init w)) = Inr st
          \<and> eltstack st = [DocumentP (fst (Parse_init w))]
          \<and> dec_Token [] raw None = (raw, None)
          \<and> Parse ord (dec_Token [] raw None) w = Inr (fst (Parse_init w), wld st)"
    by blast
next
  fix d w'
  assume p: "Parse ord (dec_Token [] raw e) w = Inr (d, w')"
  obtain toks e' where t: "dec_Token [] raw e = (toks, e')"
    by (cases "dec_Token [] raw e")
  from p have e': "e' = None"
    unfolding t by (cases e') (auto simp: Parse_split split: sum.splits)
  from dec_Token_delivers[OF t] e' have o: "open_elements [] raw = Some []" and en: "e = None"
    and tr: "toks = raw"
    by auto
  from Parse_loop_open_elements[OF o, of ord w]
  obtain st where st: "Parse_loop ord raw (snd (Parse_init w)) = Inr st"
    "length (eltstack st) = Suc 0" "hd (eltstack st) = DocumentP (fst (Parse_init w))"
    by auto
  from st(2,3) have e: "eltstack st = [DocumentP (fst (Parse_init w))]"
    by (cases "eltstack st") auto
  from p st(1) have "d = fst (Parse_init w)" "w' = wld st"
    unfolding t tr e' by (simp_all add: Parse_split)
  with st(1) e show "e = None" and "open_elements [] raw = Some []"
    and "\<exists>st. Parse_loop ord raw (snd (Parse_init w)) = Inr st
                \<and> eltstack st = [DocumentP d] \<and> w' = wld st"
    using en o by auto
qed

theorem unclosed_elements_are_an_error_witness:
  "open_elements [] [xml_StartElement (xml_Name [] ''a'') []] = Some [xml_Name [] ''a'']
   \<and> dec_Token [] [xml_StartElement (xml_Name [] ''a'') []] None
       = ([xml_StartElement (xml_Name [] ''a'') []], Some ''unexpected EOF'')
   \<and> Parse id (dec_Token [] [xml_StartElement (xml_Name [] ''a'') []] None) world0
       = Inl (TokenError ''unexpected EOF'')
   \<and> open_elements [] [xml_StartElement (xml_Name [] ''a'') [], xml_EndElement (xml_Name [] ''a'')]
       = Some []
   \<and> (\<exists>st. Parse_loop id [xml_StartElement (xml_Name [] ''a'') [],
                            xml_EndElement (xml_Name [] ''a'')] (snd (Parse_init world0)) = Inr st
          \<and> eltstack st = [DocumentP 0]
          \<and> Parse id (dec_Token [] [xml_StartElement (xml_Name [] ''a'') [],
                                    xml_EndElement (xml_Name [] ''a'')] None) world0
              = Inr (0, wld st))"
proof -
  let ?a = "xml_Name [] ''a''"
  have o1: "open_elements [] [xml_StartElement ?a []] = Some [?a]"
    and o2: "open_elements [] [xml_StartElement ?a [], xml_EndElement ?a] = Some []"
    and i: "fst (Parse_init world0) = 0"
    by (simp_all add: Parse_init_def recv_ids_def world0_def)
  note t1 = unclosed_elements_are_an_error[of "[xml_StartElement ?a []]" ?a "[]" id world0 None]
  note t2 = unclosed_elements_are_an_error
              [of "[xml_StartElement ?a [], xml_EndElement ?a]" ?a "[]" id world0 None]
  from t1 o1 have
    "dec_Token [] [xml_StartElement ?a []] None = ([xml_StartElement ?a []], Some ''unexpected EOF'')"
    and "Parse id (dec_Token [] [xml_StartElement ?a []] None) world0
           = Inl (TokenError ''unexpected EOF'')"
    by blast+
  moreover from t2 o2 have
    "\<exists>st. Parse_loop id [xml_StartElement ?a [], xml_EndElement ?a] (snd (Parse_init world0)) = Inr st
          \<and> eltstack st = [DocumentP (fst (Parse_init world0))]
          \<and> Parse id (dec_Token [] [xml_StartElement ?a [], xml_EndElement ?a] None) world0
              = Inr (fst (Parse_init world0), wld st)"
    by blast
  ultimately show ?thesis
    using o1 o2 unfolding i by simp
qed

section \<open>Coalescing of character data\<close>

lemma adjacent_chardata_snoc:
  "adjacent_chardata (cs @ [n]) \<longleftrightarrow>
     adjacent_chardata cs \<or> (cs \<noteq> [] \<and> is_CharData (last cs) \<and> is_CharData n)"
  by (induction cs rule: adjacent_chardata.induct) auto

lemma adjacent_chardata_replace_last:
  "cs \<noteq> [] \<Longrightarrow> is_CharData (last cs) \<Longrightarrow>
     adjacent_chardata (cs[length cs - 1 := CharData i s]) = adjacent_chardata cs"
proof (induction cs rule: adjacent_chardata.induct)
  case (1 a b rest)
  then show ?case by (cases rest) auto
qed auto

text \<open>
  \<^verbatim>\<open>Element.Append\<close> keeps a list of children free of neighbouring character data, and
  the fragments \<^verbatim>\<open>ab\<close> and \<^verbatim>\<open>cd\<close> appended one after the other become the one child
  \<^verbatim>\<open>abcd\<close>.
\<close>

lemma elt_Append_no_adjacent:
  assumes "\<not> adjacent_chardata (children elt)"
  shows "\<not> adjacent_chardata (children (elt_Append elt n))"
proof (cases "is_CharData n \<and> children elt \<noteq> [] \<and> is_CharData (last (children elt))")
  case True
  then obtain i s j t where n: "n = CharData i s" and l: "last (children elt) = CharData j t"
    by (auto elim!: is_CharData.elims)
  with True have "children (elt_Append elt n) =
      (children elt)[length (children elt) - 1 := CharData 0 (t @ s)]"
    by (simp add: elt_Append_def Let_def last_conv_nth)
  with True assms adjacent_chardata_replace_last[of "children elt" 0 "t @ s"]
  show ?thesis by simp
next
  case False
  then have "children (elt_Append elt n) = children elt @ [n]"
    by (cases n; cases "children elt ! (length (children elt) - 1)")
       (auto simp: elt_Append_def Let_def last_conv_nth)
  with False assms show ?thesis
    by (auto simp: adjacent_chardata_snoc)
qed

theorem elt_Append_two_fragments:
  assumes "children elt = [] \<or> \<not> is_CharData (last (children elt))"
  shows "children (elt_Append (elt_Append elt (CharData i ''ab'')) (CharData j ''cd''))
           = children elt @ [CharData 0 ''abcd'']"
  using assms
  by (auto simp: elt_Append_def Let_def last_conv_nth split: XMLNode.splits)

theorem elt_Append_two_fragments_witness:
  "children elt_ab = []
   \<and> children (elt_Append (elt_Append elt_ab (CharData 1 ''ab'')) (CharData 2 ''cd''))
       = [CharData 0 ''abcd'']"
proof -
  have h: "children elt_ab = []"
    by (simp add: elt_ab_def)
  from elt_Append_two_fragments[of elt_ab 1 2] h show ?thesis
    by simp
qed

text \<open>
  C9 at the level of the document. \<^verbatim>\<open>XMLDocument.Append\<close> appends without looking at the
  last child. The input \<^verbatim>\<open>\n<!DOCTYPE r>\n<r/>\<close> arrives as character data, a directive
  (which \<^verbatim>\<open>Parse\<close> skips), character data, and the start and end of \<^verbatim>\<open>r\<close>: the
  document ends with two character data children side by side.
\<close>

theorem document_chardata_adjacent:
  "Parse id ([xml_CharData [CHR 0x0A], xml_Directive ''DOCTYPE r'', xml_CharData [CHR 0x0A],
              xml_StartElement (xml_Name [] ''r'') [], xml_EndElement (xml_Name [] ''r'')],
             None) world0 =
     Inr (0, \<lparr>elements =
                [1 \<mapsto> \<lparr>ID = 3, Name = ''r'', Prefix = [], Parent = Some (DocumentP 0),
                         Namespaces = [], children = [], attributes = []\<rparr>],
              documents =
                [0 \<mapsto> \<lparr>doc_ID = 0,
                         doc_children = [CharData 1 [CHR 0x0A], CharData 2 [CHR 0x0A], ElementP 1]\<rparr>],
              next_addr = 2, ids = 4\<rparr>)
   \<and> adjacent_chardata [CharData 1 [CHR 0x0A], CharData 2 [CHR 0x0A], ElementP 1]"
  by (simp add: run_defs)

section \<open>Setting attributes\<close>

lemma Append_Attribute_loop_new:
  assumes "\<forall>attr \<in> set attrs. \<not> same_name t attr"
  shows "Append_Attribute_loop attrs t =
           attrs @ [xml_Attr (xml_Name (attr_Namespace t) (attr_Name t)) (attr_Value t)]"
  using assms by (induction attrs) (auto simp: same_name_def)

lemma Append_Attribute_loop_replace:
  assumes "\<forall>attr \<in> set before. \<not> same_name t attr" and "same_name t old"
  shows "Append_Attribute_loop (before @ old # after) t =
           before @ xml_Attr (AttrName old) (attr_Value t) # after"
  using assms by (induction before) (auto simp: same_name_def)

lemma SetAttribute_plain:
  assumes "Space (AttrName attr) = []"
  shows "attributes (elt_SetAttribute ord elt attr) =
           filter (\<lambda>curattr. AttrName curattr \<noteq> AttrName attr) (attributes elt) @ [attr]"
  using assms by (simp add: elt_SetAttribute_def)

text \<open>
  C6, as the code has it. \<^verbatim>\<open>SetAttribute\<close> with an attribute that has no namespace drops
  every attribute of the same name, keeps the others in their order and puts the new
  attribute last, so that exactly one attribute of that name is left; if the name is new,
  the list grows by the attribute at its end. Appending an \<^verbatim>\<open>Attribute\<close> node with
  \<^verbatim>\<open>Append\<close> writes the value into the first attribute of the same local name and
  namespace, where it stands, and appends the attribute if there is none.
\<close>

theorem set_attribute_moves_to_end:
  "(Space (AttrName attr) = [] \<longrightarrow>
      attributes (elt_SetAttribute ord elt attr) =
        filter (\<lambda>curattr. AttrName curattr \<noteq> AttrName attr) (attributes elt) @ [attr]
      \<and> length (filter (\<lambda>curattr. AttrName curattr = AttrName attr)
            (attributes (elt_SetAttribute ord elt attr))) = 1
      \<and> (AttrName attr \<notin> AttrName ` set (attributes elt) \<longrightarrow>
            attributes (elt_SetAttribute ord elt attr) = attributes elt @ [attr]))
   \<and> ((\<forall>a \<in> set before. \<not> same_name t a) \<and> same_name t old \<longrightarrow>
        attributes (elt_Append_Attribute (elt\<lparr>attributes := before @ old # after\<rparr>) t) =
          before @ xml_Attr (AttrName old) (attr_Value t) # after)
   \<and> ((\<forall>a \<in> set (attributes elt). \<not> same_name t a) \<longrightarrow>
        attributes (elt_Append_Attribute elt t) =
          attributes elt @ [xml_Attr (xml_Name (attr_Namespace t) (attr_Name t)) (attr_Value t)])"
proof -
  have keep: "filter (\<lambda>curattr. AttrName curattr \<noteq> AttrName attr) (attributes elt) = attributes elt"
    if "AttrName attr \<notin> AttrName ` set (attributes elt)"
    using that by (intro filter_True) (auto simp: image_iff)
  show ?thesis
    using keep
    by (auto simp: SetAttribute_plain elt_Append_Attribute_def Append_Attribute_loop_new
                   Append_Attribute_loop_replace)
qed

theorem set_attribute_moves_to_end_witness:
  "attributes (elt_SetAttribute id elt_ab (xml_Attr (xml_Name [] ''a'') ''3'')) =
     [xml_Attr (xml_Name [] ''b'') ''2'', xml_Attr (xml_Name [] ''a'') ''3'']
   \<and> attributes (elt_SetAttribute id elt_ab (xml_Attr (xml_Name [] ''c'') ''3'')) =
     [xml_Attr (xml_Name [] ''a'') ''1'', xml_Attr (xml_Name [] ''b'') ''2'',
      xml_Attr (xml_Name [] ''c'') ''3'']
   \<and> attributes (elt_Append_Attribute elt_ab
        \<lparr>attr_ID = 0, attr_Name = ''a'', attr_Namespace = [], attr_Prefix = [], attr_Value = ''3''\<rparr>) =
     [xml_Attr (xml_Name [] ''a'') ''3'', xml_Attr (xml_Name [] ''b'') ''2'']
   \<and> attributes (elt_Append_Attribute elt_ab
        \<lparr>attr_ID = 0, attr_Name = ''c'', attr_Namespace = [], attr_Prefix = [], attr_Value = ''3''\<rparr>) =
     [xml_Attr (xml_Name [] ''a'') ''1'', xml_Attr (xml_Name [] ''b'') ''2'',
      xml_Attr (xml_Name [] ''c'') ''3'']"
  using set_attribute_moves_to_end
      [of "xml_Attr (xml_Name [] ''a'') ''3''" id elt_ab "[]"
          "\<lparr>attr_ID = 0, attr_Name = ''a'', attr_Namespace = [], attr_Prefix = [], attr_Value = ''3''\<rparr>"
          "xml_Attr (xml_Name [] ''a'') ''1''" "[xml_Attr (xml_Name [] ''b'') ''2'']"]
    set_attribute_moves_to_end
      [of "xml_Attr (xml_Name [] ''c'') ''3''" id elt_ab "[]"
          "\<lparr>attr_ID = 0, attr_Name = ''c'', attr_Namespace = [], attr_Prefix = [], attr_Value = ''3''\<rparr>"
          "xml_Attr (xml_Name [] ''a'') ''1''" "[]"]
  by (simp add: elt_ab_def same_name_def)

text \<open>
  C6, as stated, fails: setting \<^verbatim>\<open>a="3"\<close> on an element with \<^verbatim>\<open>a="1" b="2"\<close> gives
  \<^verbatim>\<open>b="2" a="3"\<close>; the attribute does not keep its place.
\<close>

theorem set_attribute_in_place_counterexample:
  "attributes (elt_SetAttribute id elt_ab (xml_Attr (xml_Name [] ''a'') ''3''))
     \<noteq> [xml_Attr (xml_Name [] ''a'') ''3'', xml_Attr (xml_Name [] ''b'') ''2'']"
  by (simp add: elt_SetAttribute_def elt_ab_def)

section \<open>Attributes in the serialized text\<close>

lemma attr_text_erase_space: "attr_text (erase_space att) = attr_text att"
  by (simp add: attr_text_def erase_space_def)

lemma eltname_attributes [simp]: "eltname (elt\<lparr>attributes := as\<rparr>) = eltname elt"
  by (simp add: eltname_def)

lemma toxml_erase_spaces:
  "toxml k ord (erase_spaces w) n printed = toxml k ord w n printed"
  "toxml_children k ord (erase_spaces w) cs printed = toxml_children k ord w cs printed"
proof (induction k ord w n printed and k ord w cs printed rule: toxml_toxml_children.induct)
  case (6 k ord w a namespacePrinted)
  show ?case
  proof (cases "elements w a")
    case None
    then show ?thesis by (simp add: erase_spaces_def)
  next
    case (Some elt)
    obtain written printed1 where pn:
      "print_namespaces (ord (Namespaces elt)) namespacePrinted = (written, printed1)"
      by (cases "print_namespaces (ord (Namespaces elt)) namespacePrinted")
    have e: "elements (erase_spaces w) a =
               Some (elt\<lparr>attributes := map erase_space (attributes elt)\<rparr>)"
      using Some by (simp add: erase_spaces_def)
    have ih: "toxml_children k ord (erase_spaces w) (children elt) printed1 =
              toxml_children k ord w (children elt) printed1" if "length (children elt) \<noteq> 0"
      using 6[OF Some pn[symmetric]] that by simp
    show ?thesis
      using ih by (auto simp: Some e pn o_def attr_text_erase_space split: sum.splits)
  qed
next
  case (5 k ord w d namespacePrinted)
  then show ?case
    by (cases "documents w d") (auto simp: erase_spaces_def)
next
  case (8 k ord w child rest namespacePrinted)
  then show ?case
    by (auto split: sum.splits)
qed simp_all

lemma Parse_ns_attr:
  "Parse id ([xml_StartElement (xml_Name [] ''r'')
                [xml_Attr (xml_Name ''xmlns'' ''a'') ''urn:x'',
                 xml_Attr (xml_Name ''urn:x'' ''k'') ''v''],
              xml_EndElement (xml_Name [] ''r'')], None) world0
     = Inr (0, world_ns_attr)"
  by (simp add: run_defs world_ns_attr_def)

text \<open>
  C10. In the text of an element, after the name and the namespace declarations, every
  attribute stands as a blank, its local name, \<^verbatim>\<open>="\<close>, its escaped value and \<^verbatim>\<open>"\<close>, in
  the order of the attribute list. The namespace of an attribute has no part in the
  text: in the world where every attribute's namespace is forgotten the serializer gives
  the same result.
\<close>

theorem attributes_written_by_local_name:
  assumes "elements w a = Some elt"
    and "toxml k ord w (ElementP a) printed = Inr (out, ds, printed')"
  shows "(\<exists>rest. out =
            ''<'' @ eltname elt
              @ concat (map decl_text (fst (print_namespaces (ord (Namespaces elt)) printed)))
              @ concat (map (\<lambda>att. '' '' @ Local (AttrName att) @ ''='' @ [CHR 0x22]
                                     @ escape (AttrValue att) @ [CHR 0x22]) (attributes elt))
              @ rest)
         \<and> toxml k ord (erase_spaces w) (ElementP a) printed = Inr (out, ds, printed')"
proof -
  obtain j where k: "k = Suc j"
    using assms(2) by (cases k) auto
  have "\<exists>rest. out =
            ''<'' @ eltname elt
              @ concat (map decl_text (fst (print_namespaces (ord (Namespaces elt)) printed)))
              @ concat (map attr_text (attributes elt)) @ rest"
    using assms unfolding k
    by (auto split: prod.splits if_splits sum.splits)
  moreover have "attr_text = (\<lambda>att. '' '' @ Local (AttrName att) @ ''='' @ [CHR 0x22]
                                     @ escape (AttrValue att) @ [CHR 0x22])"
    by (rule ext) (simp add: attr_text_def)
  ultimately show ?thesis
    using assms(2) by (simp add: toxml_erase_spaces)
qed

theorem attributes_written_by_local_name_witness:
  "elements world_ns_attr 1 =
     Some \<lparr>ID = 1, Name = ''r'', Prefix = [], Parent = Some (DocumentP 0),
           Namespaces = [(''a'', ''urn:x'')], children = [],
           attributes = [xml_Attr (xml_Name ''urn:x'' ''k'') ''v'']\<rparr>
   \<and> toxml 1 id world_ns_attr (ElementP 1) {} =
       Inr (text_ns_attr, [(1, ''a'', ''urn:x'')], {''urn:x''})
   \<and> toxml 1 id (erase_spaces world_ns_attr) (ElementP 1) {} =
       Inr (text_ns_attr, [(1, ''a'', ''urn:x'')], {''urn:x''})"
proof -
  have h1: "elements world_ns_attr 1 =
     Some \<lparr>ID = 1, Name = ''r'', Prefix = [], Parent = Some (DocumentP 0),
           Namespaces = [(''a'', ''urn:x'')], children = [],
           attributes = [xml_Attr (xml_Name ''urn:x'' ''k'') ''v'']\<rparr>"
    by (simp add: world_ns_attr_def)
  have h2: "toxml 1 id world_ns_attr (ElementP 1) {} =
       Inr (text_ns_attr, [(1, ''a'', ''urn:x'')], {''urn:x''})"
    by (simp add: world_ns_attr_def text_ns_attr_def eltname_def decl_text_def attr_text_def
                  escape_def Replace_def entitiesReplacer_def)
  from attributes_written_by_local_name[OF h1 h2] h1 h2 show ?thesis
    by simp
qed

section \<open>Namespace declarations in the serialized text\<close>









lemma Parse_ns_nested:
  "Parse id ([xml_StartElement (xml_Name ''urn:x'' ''r'') [xml_Attr (xml_Name ''xmlns'' ''a'') ''urn:x''],
              xml_StartElement (xml_Name ''urn:x'' ''c'') [],
              xml_EndElement (xml_Name ''urn:x'' ''c''),
              xml_EndElement (xml_Name ''urn:x'' ''r'')], None) world0
     = Inr (0, world_ns_nested)"
  by (simp add: run_defs world_ns_nested_def numeral_2_eq_2)






section \<open>Identities and document order\<close>

text \<open>
  C4 on the input \<^verbatim>\<open><a>x<![CDATA[y]]></a>\<close>, which the decoder delivers as the start of
  \<^verbatim>\<open>a\<close>, the character data \<^verbatim>\<open>x\<close> and \<^verbatim>\<open>y\<close>, and the end of \<^verbatim>\<open>a\<close>. In a fresh process
  the document draws the identity 0, the element 1, the two character data 2 and 3; the
  second is merged into the first by \<^verbatim>\<open>Element.Append\<close>, and the merged node is built
  without an identity (the zero value). The walk of the tree meets 0, 1, 0: the
  identities are neither increasing nor unique.
\<close>

theorem merged_chardata_identity:
  "Parse id ([xml_StartElement (xml_Name [] ''a'') [], xml_CharData ''x'', xml_CharData ''y'',
              xml_EndElement (xml_Name [] ''a'')], None) world0 = Inr (0, world_merged)
   \<and> preorder_ids 3 world_merged (DocumentP 0) = Inr [0, 1, 0]
   \<and> \<not> sorted_wrt (<) [0, 1, 0 :: int]
   \<and> \<not> distinct [0, 1, 0 :: int]"
  by (simp add: run_defs world_merged_def numeral_3_eq_3)

section \<open>Serializing and parsing again\<close>

text \<open>
  C1 on the input \<^verbatim>\<open><r xmlns:a="urn:x" a:k="v"/>\<close>. The decoder delivers the attribute
  \<^verbatim>\<open>a:k\<close> with the namespace \<^verbatim>\<open>urn:x\<close>, and \<^verbatim>\<open>Parse\<close> stores it so. The document
  serializes to \<^verbatim>\<open><r xmlns:a="urn:x" k="v" />\<close>. This is also the text of the document
  whose attribute \<^verbatim>\<open>k\<close> has no namespace, which is what the text says: its tokens are
  the start of \<^verbatim>\<open>r\<close> with the attributes \<^verbatim>\<open>xmlns:a\<close> and \<^verbatim>\<open>k\<close> (empty space) and the end
  of \<^verbatim>\<open>r\<close>. Parsing the serializer's output gives the attribute (\<^verbatim>\<open>""\<close>, \<^verbatim>\<open>k\<close>, \<^verbatim>\<open>v\<close>) in
  place of (\<^verbatim>\<open>urn:x\<close>, \<^verbatim>\<open>k\<close>, \<^verbatim>\<open>v\<close>).
\<close>

theorem attribute_namespace_lost:
  "Parse id ([xml_StartElement (xml_Name [] ''r'')
                [xml_Attr (xml_Name ''xmlns'' ''a'') ''urn:x'',
                 xml_Attr (xml_Name ''urn:x'' ''k'') ''v''],
              xml_EndElement (xml_Name [] ''r'')], None) world0 = Inr (0, world_ns_attr)
   \<and> XMLDocument_ToXML 2 id world_ns_attr 0 = Inr text_ns_attr
   \<and> Parse id ([xml_StartElement (xml_Name [] ''r'')
                  [xml_Attr (xml_Name ''xmlns'' ''a'') ''urn:x'',
                   xml_Attr (xml_Name [] ''k'') ''v''],
                xml_EndElement (xml_Name [] ''r'')], None) world0 = Inr (0, world_plain_attr)
   \<and> XMLDocument_ToXML 2 id world_plain_attr 0 = Inr text_ns_attr
   \<and> map_option attributes (elements world_ns_attr 1)
       = Some [xml_Attr (xml_Name ''urn:x'' ''k'') ''v'']
   \<and> map_option attributes (elements world_plain_attr 1)
       = Some [xml_Attr (xml_Name [] ''k'') ''v'']"
  by (simp add: run_defs world_ns_attr_def world_plain_attr_def text_ns_attr_def
                XMLDocument_ToXML_def eltname_def decl_text_def attr_text_def escape_def
                Replace_def entitiesReplacer_def numeral_2_eq_2)

section \<open>Parents\<close>

lemma update_last: "cs \<noteq> [] \<Longrightarrow> cs[length cs - 1 := x] = butlast cs @ [x]"
  by (induction cs rule: rev_induct) auto

lemma elt_Append_children:
  "children (elt_Append elt n) = children elt @ [n]
   \<or> (\<exists>i s j t. n = CharData i s \<and> children elt \<noteq> [] \<and> last (children elt) = CharData j t
        \<and> children (elt_Append elt n) = butlast (children elt) @ [CharData 0 (t @ s)])"
proof (cases "\<exists>i s j t. n = CharData i s \<and> children elt \<noteq> [] \<and> last (children elt) = CharData j t")
  case True
  then obtain i s j t where n: "n = CharData i s" and ne: "children elt \<noteq> []"
    and l: "last (children elt) = CharData j t" by blast
  with update_last[OF ne, of "CharData 0 (t @ s)"] show ?thesis
    by (simp add: elt_Append_def Let_def last_conv_nth)
next
  case False
  then have "children (elt_Append elt n) = children elt @ [n]"
    by (cases n; cases "children elt ! (length (children elt) - 1)")
       (auto simp: elt_Append_def Let_def last_conv_nth)
  then show ?thesis by simp
qed

lemma elt_Append_count:
  "count_list (children (elt_Append elt n)) (ElementP a) =
     count_list (children elt) (ElementP a) + (if n = ElementP a then 1 else 0)"
proof -
  have *: "count_list (butlast cs) (ElementP a) = count_list cs (ElementP a)"
    if "cs \<noteq> []" "last cs = CharData j t" for cs j t
    using that by (induction cs rule: rev_induct) auto
  from elt_Append_children[of elt n] show ?thesis
    by (auto simp: *)
qed

lemma elt_Append_Parent [simp]: "Parent (elt_Append elt n) = Parent elt"
  by (auto simp: elt_Append_def Let_def split: XMLNode.splits)

lemma Append_effect:
  assumes "Append w c n = Inr w'"
  shows "next_addr w' = next_addr w"
    and "(elements w' a \<noteq> None) = (elements w a \<noteq> None)"
    and "(documents w' d \<noteq> None) = (documents w d \<noteq> None)"
    and "parent_of w' a =
           (if n = ElementP a \<and> (\<exists>d. c = DocumentP d) then Some c else parent_of w a)"
proof -
  show "next_addr w' = next_addr w"
    using assms
    by (cases c; cases n)
       (auto simp: Element_Append_def XMLDocument_Append_def setParent_def split: option.splits)
  show "(elements w' a \<noteq> None) = (elements w a \<noteq> None)"
    using assms
    by (cases c; cases n)
       (auto simp: Element_Append_def XMLDocument_Append_def setParent_def
             split: option.splits if_splits)
  show "(documents w' d \<noteq> None) = (documents w d \<noteq> None)"
    using assms
    by (cases c; cases n)
       (auto simp: Element_Append_def XMLDocument_Append_def setParent_def
             split: option.splits if_splits)
  show "parent_of w' a =
           (if n = ElementP a \<and> (\<exists>d. c = DocumentP d) then Some c else parent_of w a)"
    using assms
    by (cases c; cases n)
       (auto simp: Element_Append_def XMLDocument_Append_def setParent_def parent_of_def
             split: option.splits if_splits)
qed

lemma Append_refs:
  assumes "Append w c n = Inr w'" and "allocated w c"
  shows "refs w' q a = refs w q a + (if q = c \<and> n = ElementP a then 1 else 0)"
proof (cases "q = c")
  case False
  with assms(1) have "kids w' q = kids w q"
    by (cases c; cases n; cases q)
       (auto simp: Element_Append_def XMLDocument_Append_def setParent_def
             split: option.splits if_splits)
  with False show ?thesis by (simp add: refs_def)
next
  case True
  with assms show ?thesis
    by (cases c; cases n)
       (auto simp: refs_def Element_Append_def XMLDocument_Append_def setParent_def
                   elt_Append_count split: option.splits if_splits)
qed

lemma kids_ids [simp]: "kids (w\<lparr>ids := i\<rparr>) q = kids w q"
  by (cases q) auto

lemma refs_ids [simp]: "refs (w\<lparr>ids := i\<rparr>) q a = refs w q a"
  by (simp add: refs_def)

lemma parent_of_ids [simp]: "parent_of (w\<lparr>ids := i\<rparr>) a = parent_of w a"
  by (simp add: parent_of_def)

lemma world_okI:
  assumes "\<And>a. elements w a \<noteq> None \<Longrightarrow> a < next_addr w"
    and "\<And>d. documents w d \<noteq> None \<Longrightarrow> d < next_addr w"
    and "\<And>q a. 0 < refs w q a \<Longrightarrow> a < next_addr w"
  shows "world_ok w"
  using assms unfolding world_ok_def by blast

lemma buildingI:
  assumes "world_ok (wld st)" and "b < next_addr (wld st)" and "documents (wld st) b \<noteq> None"
    and "\<And>n. n \<in> set (cur st # eltstack st) \<Longrightarrow>
           n = DocumentP b \<or> (\<exists>a. n = ElementP a \<and> b < a \<and> elements (wld st) a \<noteq> None)"
    and "\<And>q a. b < a \<Longrightarrow> 0 < refs (wld st) q a \<Longrightarrow>
           parent_of (wld st) a = Some q \<and> refs (wld st) q a = 1"
    and "\<And>a. b < a \<Longrightarrow> a < next_addr (wld st) \<Longrightarrow>
           \<exists>p. parent_of (wld st) a = Some p \<and> refs (wld st) p a = 1"
  shows "building b st"
  using assms unfolding building_def by simp

lemma buildingD:
  assumes "building b st"
  shows "world_ok (wld st)" and "b < next_addr (wld st)" and "documents (wld st) b \<noteq> None"
    and "\<And>n. n \<in> set (cur st # eltstack st) \<Longrightarrow>
           n = DocumentP b \<or> (\<exists>a. n = ElementP a \<and> b < a \<and> elements (wld st) a \<noteq> None)"
    and "\<And>q a. b < a \<Longrightarrow> 0 < refs (wld st) q a \<Longrightarrow>
           parent_of (wld st) a = Some q \<and> refs (wld st) q a = 1"
    and "\<And>a. b < a \<Longrightarrow> a < next_addr (wld st) \<Longrightarrow>
           \<exists>p. parent_of (wld st) a = Some p \<and> refs (wld st) p a = 1"
  using assms unfolding building_def by blast+

lemma world_okD:
  assumes "world_ok w"
  shows "\<And>a. elements w a \<noteq> None \<Longrightarrow> a < next_addr w"
    and "\<And>d. documents w d \<noteq> None \<Longrightarrow> d < next_addr w"
    and "\<And>q a. 0 < refs w q a \<Longrightarrow> a < next_addr w"
  using assms unfolding world_ok_def by blast+

lemma building_cur_allocated:
  assumes "building b st"
  shows "allocated (wld st) (cur st)"
  using buildingD(3)[OF assms] buildingD(4)[OF assms, of "cur st"] by auto

lemma building_value_step:
  assumes "building b st" and "value_node n"
  shows "\<exists>w'. Append (snd (recv_ids (wld st))) (cur st) n = Inr w'
            \<and> building b (st\<lparr>wld := w'\<rparr>)
            \<and> next_addr w' = next_addr (wld st)
            \<and> (\<forall>a. parent_of w' a = parent_of (wld st) a)"
proof -
  let ?w = "wld st"
  let ?w1 = "snd (recv_ids ?w)"
  have w1: "?w1 = ?w\<lparr>ids := ids ?w + 1\<rparr>"
    by (simp add: recv_ids_def)
  have cur1: "allocated ?w1 (cur st)"
    using building_cur_allocated[OF assms(1)] by (simp add: w1)
  obtain w' where w': "Append ?w1 (cur st) n = Inr w'"
    using Append_total[OF cur1] assms(2) by blast
  have n: "n \<noteq> ElementP a" for a
    using assms(2) by auto
  have nx: "next_addr w' = next_addr ?w"
    using Append_effect(1)[OF w'] by (simp add: w1)
  have el: "(elements w' a \<noteq> None) = (elements ?w a \<noteq> None)" for a
    using Append_effect(2)[OF w', of a] by (simp add: w1)
  have dc: "(documents w' d \<noteq> None) = (documents ?w d \<noteq> None)" for d
    using Append_effect(3)[OF w', of d] by (simp add: w1)
  have pa: "parent_of w' a = parent_of ?w a" for a
    using Append_effect(4)[OF w', of a] n by (simp add: w1)
  have rf: "refs w' q a = refs ?w q a" for q a
    using Append_refs[OF w' cur1, of q a] n by (simp add: w1)
  note D = buildingD[OF assms(1)]
  have ok: "world_ok w'"
    using world_okD[OF D(1)] by (intro world_okI) (simp_all only: nx el dc rf)
  have sel: "wld (st\<lparr>wld := w'\<rparr>) = w'" "cur (st\<lparr>wld := w'\<rparr>) = cur st"
    "eltstack (st\<lparr>wld := w'\<rparr>) = eltstack st"
    by simp_all
  have "building b (st\<lparr>wld := w'\<rparr>)"
  proof (rule buildingI; unfold sel)
    show "world_ok w'" by (rule ok)
    show "b < next_addr w'" using D(2) by (simp only: nx)
    show "documents w' b \<noteq> None" using D(3) dc[of b] by blast
    show "n = DocumentP b \<or> (\<exists>a. n = ElementP a \<and> b < a \<and> elements w' a \<noteq> None)"
      if "n \<in> set (cur st # eltstack st)" for n
      using D(4)[OF that] el by blast
    show "parent_of w' a = Some q \<and> refs w' q a = 1" if "b < a" "0 < refs w' q a" for q a
      using D(5)[of a q] that by (simp add: pa rf)
    show "\<exists>p. parent_of w' a = Some p \<and> refs w' p a = 1" if "b < a" "a < next_addr w'" for a
      using D(6)[of a] that by (simp add: pa rf nx)
  qed
  then show ?thesis
    using w' nx pa by simp
qed

lemma building_start_step:
  assumes "building b st"
  shows "\<exists>st'. Parse_token ord (xml_StartElement name attr) st = Inr st'
            \<and> building b st'
            \<and> next_addr (wld st') = Suc (next_addr (wld st))
            \<and> parent_of (wld st') (next_addr (wld st)) = Some (cur st)
            \<and> (\<forall>a. a \<noteq> next_addr (wld st) \<longrightarrow> parent_of (wld st') a = parent_of (wld st) a)"
proof -
  let ?w = "wld st"
  let ?tmp = "next_addr ?w"
  note D = buildingD[OF assms]
  note W = world_okD[OF D(1)]
  have fresh: "elements ?w ?tmp = None"
    using W(1)[of ?tmp] by (cases "elements ?w ?tmp") auto
  have cur_alloc: "allocated ?w (cur st)"
    by (rule building_cur_allocated[OF assms])
  define w1 where "w1 = snd (NewElement ?w)"
  have ne: "NewElement ?w = (?tmp, w1)"
    by (simp add: w1_def NewElement_def)
  define w2 where "w2 = snd (recv_ids w1)"
  have ri: "recv_ids w1 = (ids ?w, w2)"
    by (simp add: w2_def w1_def recv_ids_def NewElement_def)
  have cur2: "allocated w2 (cur st)"
    using cur_alloc by (cases "cur st") (auto simp: w2_def w1_def recv_ids_def NewElement_def)
  obtain inherited where inh:
    "(case cur st of
        ElementP c \<Rightarrow>
          (case elements w2 c of
             None \<Rightarrow> Inl NilDereference
           | Some celt \<Rightarrow> Inr (copy_namespaces ord (Namespaces celt)))
      | _ \<Rightarrow> Inr []) = Inr inherited"
    using cur2 by (cases "cur st") auto
  obtain namespaces attrs where na:
    "foldl start_attribute (inherited, []) attr = (namespaces, attrs)"
    by (cases "foldl start_attribute (inherited, []) attr") auto
  define e where "e = \<lparr>ID = ids ?w, Name = Local name,
     Prefix = resolve_prefix ord namespaces (Space name),
     Parent = Some (cur st), Namespaces = namespaces, children = [],
     attributes = attrs\<rparr>"
  define w2' where "w2' = w2\<lparr>elements := (elements w2)(?tmp \<mapsto> e)\<rparr>"
  have w2'_eq: "w2' = ?w\<lparr>elements := (elements ?w)(?tmp \<mapsto> e), next_addr := Suc ?tmp,
                          ids := ids ?w + 1\<rparr>"
    by (simp add: w2'_def w2_def w1_def recv_ids_def NewElement_def)
  have kids2: "kids w2' q = (if q = ElementP ?tmp then [] else kids ?w q)" for q
    by (cases q) (auto simp: w2'_eq e_def)
  have refs2: "refs w2' q a = refs ?w q a" for q a
    using fresh by (auto simp: refs_def kids2)
  have par2: "parent_of w2' a = (if a = ?tmp then Some (cur st) else parent_of ?w a)" for a
    by (simp add: parent_of_def w2'_eq e_def)
  have cur2': "allocated w2' (cur st)"
    using cur_alloc by (cases "cur st") (auto simp: w2'_eq)
  have tmp2': "allocated w2' (ElementP ?tmp)"
    by (simp add: w2'_eq)
  obtain w3 where w3: "Append w2' (cur st) (ElementP ?tmp) = Inr w3"
    using Append_total[OF cur2'] tmp2' by blast
  have step: "Parse_token ord (xml_StartElement name attr) st =
      Inr \<lparr>cur = ElementP ?tmp, eltstack = eltstack st @ [ElementP ?tmp], wld = w3\<rparr>"
    using w3 by (simp add: ne ri inh na w2'_def e_def)
  have nx: "next_addr w3 = Suc ?tmp"
    using Append_effect(1)[OF w3] by (simp add: w2'_eq)
  have el: "(elements w3 a \<noteq> None) = (a = ?tmp \<or> elements ?w a \<noteq> None)" for a
    using Append_effect(2)[OF w3, of a] by (simp add: w2'_eq)
  have dc: "(documents w3 d \<noteq> None) = (documents ?w d \<noteq> None)" for d
    using Append_effect(3)[OF w3, of d] by (simp add: w2'_eq)
  have pa: "parent_of w3 a = (if a = ?tmp then Some (cur st) else parent_of ?w a)" for a
    using Append_effect(4)[OF w3, of a] par2[of a] by auto
  have rf: "refs w3 q a = refs ?w q a + (if q = cur st \<and> a = ?tmp then 1 else 0)" for q a
    using Append_refs[OF w3 cur2', of q a] refs2[of q a] by auto
  have no_ref: "refs ?w q ?tmp = 0" for q
    using W(3)[of q ?tmp] by auto
  have ok3: "world_ok w3"
  proof (rule world_okI)
    show "a < next_addr w3" if "elements w3 a \<noteq> None" for a
      using that W(1)[of a] unfolding el nx by auto
    show "d < next_addr w3" if "documents w3 d \<noteq> None" for d
      using that W(2)[of d] unfolding dc nx by auto
    show "a < next_addr w3" if "0 < refs w3 q a" for q a
      using that W(3)[of q a] unfolding rf nx by (auto split: if_splits)
  qed
  let ?st' = "\<lparr>cur = ElementP ?tmp, eltstack = eltstack st @ [ElementP ?tmp], wld = w3\<rparr>"
  have sel: "wld ?st' = w3" "cur ?st' = ElementP ?tmp"
    "eltstack ?st' = eltstack st @ [ElementP ?tmp]"
    by simp_all
  have "building b ?st'"
  proof (rule buildingI; unfold sel)
    show "world_ok w3" by (rule ok3)
    show "b < next_addr w3" using D(2) by (simp add: nx)
    show "documents w3 b \<noteq> None" using D(3) dc[of b] by blast
    show "n = DocumentP b \<or> (\<exists>a. n = ElementP a \<and> b < a \<and> elements w3 a \<noteq> None)"
      if "n \<in> set (ElementP ?tmp # eltstack st @ [ElementP ?tmp])" for n
    proof (cases "n = ElementP ?tmp")
      case True
      with D(2) el[of ?tmp] show ?thesis by blast
    next
      case False
      with that have "n \<in> set (cur st # eltstack st)" by auto
      from D(4)[OF this] el show ?thesis by blast
    qed
    show "parent_of w3 a = Some q \<and> refs w3 q a = 1" if "b < a" "0 < refs w3 q a" for q a
    proof (cases "a = ?tmp")
      case True
      with that(2) no_ref[of q] show ?thesis
        by (auto simp: rf pa split: if_splits)
    next
      case False
      with that D(5)[of a q] show ?thesis
        by (simp add: rf pa)
    qed
    show "\<exists>p. parent_of w3 a = Some p \<and> refs w3 p a = 1" if "b < a" "a < next_addr w3" for a
    proof (cases "a = ?tmp")
      case True
      with no_ref[of "cur st"] show ?thesis
        by (simp add: rf pa)
    next
      case False
      with that have "a < ?tmp" by (simp add: nx)
      with D(6)[OF that(1) this] False show ?thesis
        by (simp add: rf pa)
    qed
  qed
  with step nx pa show ?thesis
    by simp
qed

lemma building_end_step:
  assumes "building b st" and "2 \<le> length (eltstack st)"
  shows "building b (st\<lparr>cur := eltstack st ! (length (eltstack st) - 2),
                        eltstack := take (length (eltstack st) - 1) (eltstack st)\<rparr>)"
proof -
  let ?st' = "st\<lparr>cur := eltstack st ! (length (eltstack st) - 2),
                  eltstack := take (length (eltstack st) - 1) (eltstack st)\<rparr>"
  note D = buildingD[OF assms(1)]
  have sel: "wld ?st' = wld st" "cur ?st' = eltstack st ! (length (eltstack st) - 2)"
    "eltstack ?st' = take (length (eltstack st) - 1) (eltstack st)"
    by simp_all
  have sub: "n \<in> set (cur st # eltstack st)"
    if "n \<in> set (eltstack st ! (length (eltstack st) - 2)
                  # take (length (eltstack st) - 1) (eltstack st))" for n
    using that assms(2) by (auto dest: in_set_takeD)
  show ?thesis
  proof (rule buildingI; unfold sel)
    show "n = DocumentP b \<or> (\<exists>a. n = ElementP a \<and> b < a \<and> elements (wld st) a \<noteq> None)"
      if "n \<in> set (eltstack st ! (length (eltstack st) - 2)
                    # take (length (eltstack st) - 1) (eltstack st))" for n
      using D(4)[OF sub[OF that]] .
  qed (use D in blast)+
qed

lemma building_token:
  assumes "building b st" and "Parse_token ord tok st = Inr st'"
  shows "building b st' \<and> next_addr (wld st) \<le> next_addr (wld st')
         \<and> (\<forall>a. a < next_addr (wld st) \<longrightarrow> parent_of (wld st') a = parent_of (wld st) a)"
proof (cases tok)
  case (xml_StartElement name attr)
  from building_start_step[OF assms(1), of ord name attr] assms(2) xml_StartElement
  show ?thesis by auto
next
  case (xml_EndElement name)
  with assms(2) have len: "2 \<le> length (eltstack st)"
    and st': "st' = st\<lparr>cur := eltstack st ! (length (eltstack st) - 2),
                        eltstack := take (length (eltstack st) - 1) (eltstack st)\<rparr>"
    by (auto split: if_splits)
  from building_end_step[OF assms(1) len] show ?thesis
    by (simp add: st')
next
  case (xml_CharData v)
  from building_value_step[OF assms(1), of "CharData (ids (wld st)) v"] assms(2) xml_CharData
  show ?thesis by (auto simp: recv_ids_def)
next
  case (xml_Comment v)
  from building_value_step[OF assms(1), of "Comment (ids (wld st)) v"] assms(2) xml_Comment
  show ?thesis by (auto simp: recv_ids_def)
next
  case (xml_ProcInst target inst)
  from building_value_step[OF assms(1), of "ProcInst (ids (wld st)) target inst"]
    assms(2) xml_ProcInst
  show ?thesis by (auto simp: recv_ids_def)
next
  case (xml_Directive v)
  with assms show ?thesis by simp
qed

lemma building_loop:
  assumes "building b st" and "Parse_loop ord toks st = Inr st'"
  shows "building b st' \<and> next_addr (wld st) \<le> next_addr (wld st')
         \<and> (\<forall>a. a < next_addr (wld st) \<longrightarrow> parent_of (wld st') a = parent_of (wld st) a)"
  using assms
proof (induction toks arbitrary: st)
  case Nil
  then show ?case by simp
next
  case (Cons tok toks)
  from Cons.prems(2) obtain st1 where t: "Parse_token ord tok st = Inr st1"
    and l: "Parse_loop ord toks st1 = Inr st'"
    by (auto split: sum.splits)
  from building_token[OF Cons.prems(1) t] Cons.IH[OF _ l]
  show ?case by auto
qed

lemma building_init:
  assumes "world_ok w0"
  shows "building (next_addr w0) (snd (Parse_init w0))"
proof -
  let ?b = "next_addr w0"
  let ?w = "w0\<lparr>ids := ids w0 + 1,
               documents := (documents w0)(?b \<mapsto> \<lparr>doc_ID = ids w0, doc_children = []\<rparr>),
               next_addr := Suc ?b\<rparr>"
  have init: "snd (Parse_init w0) = \<lparr>cur = DocumentP ?b, eltstack = [DocumentP ?b], wld = ?w\<rparr>"
    by (simp add: Parse_init_def recv_ids_def)
  note W = world_okD[OF assms]
  have fresh: "documents w0 ?b = None"
    using W(2)[of ?b] by (cases "documents w0 ?b") auto
  have kids: "kids ?w q = kids w0 q" for q
    using fresh by (cases q) auto
  have rf: "refs ?w q a = refs w0 q a" for q a
    by (simp add: refs_def kids)
  have sel: "wld (snd (Parse_init w0)) = ?w" "cur (snd (Parse_init w0)) = DocumentP ?b"
    "eltstack (snd (Parse_init w0)) = [DocumentP ?b]"
    by (simp_all add: init)
  show ?thesis
  proof (rule buildingI; unfold sel)
    show "world_ok ?w"
    proof (rule world_okI)
      show "a < next_addr ?w" if "elements ?w a \<noteq> None" for a
        using that W(1)[of a] by auto
      show "d < next_addr ?w" if "documents ?w d \<noteq> None" for d
        using that W(2)[of d] by (auto split: if_splits)
      show "a < next_addr ?w" if "0 < refs ?w q a" for q a
        using that W(3)[of q a] by (simp add: rf)
    qed
    show "parent_of ?w a = Some q \<and> refs ?w q a = 1" if "?b < a" "0 < refs ?w q a" for q a
      using that W(3)[of q a] by (simp add: rf)
    show "\<exists>p. parent_of ?w a = Some p \<and> refs ?w p a = 1" if "?b < a" "a < next_addr ?w" for a
      using that by simp
  qed simp_all
qed

lemma Parse_built:
  assumes "world_ok w0" and "Parse ord (toks, e) w0 = Inr (d, w)"
  shows "\<exists>st. Parse_loop ord toks (snd (Parse_init w0)) = Inr st \<and> wld st = w
           \<and> d = next_addr w0 \<and> building d st"
proof -
  obtain doc st0 where init: "Parse_init w0 = (doc, st0)"
    by (cases "Parse_init w0")
  have doc: "doc = next_addr w0"
    using init by (auto simp: Parse_init_def recv_ids_def)
  from assms(2) obtain st where l: "Parse_loop ord toks st0 = Inr st" and w: "wld st = w"
    and d: "d = doc"
    by (auto simp: Parse_def init split: sum.splits option.splits)
  from building_init[OF assms(1)] init have "building doc st0"
    by (simp add: doc)
  from building_loop[OF this l] l w d doc init show ?thesis
    by auto
qed

lemma XMLDocument_Append_parent:
  assumes "XMLDocument_Append w d (ElementP a) = Inr w'"
  shows "parent_of w' a = Some (DocumentP d) \<and> kids w' (DocumentP d) = kids w (DocumentP d) @ [ElementP a]"
  using assms
  by (auto simp: XMLDocument_Append_def setParent_def parent_of_def split: option.splits)

text \<open>
  C5, as the code has it. An element that \<^verbatim>\<open>Parse\<close> makes records a parent; the children
  of that parent, and of no other node, point to it, and exactly once. The parent is the
  node that is current when the start-tag arrives, and the parent recorded after any
  part of the stream is still the one recorded at the end. \<^verbatim>\<open>XMLDocument.Append\<close> of an
  element sets the element's parent to the document and puts the element last among the
  document's children. For character data, comments and processing instructions
  \<^verbatim>\<open>setParent\<close> does nothing.
\<close>

theorem parse_records_one_parent:
  assumes "world_ok w0" and "Parse ord (toks, None) w0 = Inr (d, w)"
  shows "(\<forall>a. d < a \<and> a < next_addr w \<longrightarrow>
            (\<exists>elt p. elements w a = Some elt \<and> Parent elt = Some p
               \<and> count_list (kids w p) (ElementP a) = 1
               \<and> (\<forall>q. ElementP a \<in> set (kids w q) \<longrightarrow> q = p)))
         \<and> (\<forall>before name attr after st1.
               toks = before @ xml_StartElement name attr # after
               \<and> Parse_loop ord before (snd (Parse_init w0)) = Inr st1 \<longrightarrow>
               parent_of w (next_addr (wld st1)) = Some (cur st1))
         \<and> (\<forall>before after st1.
               toks = before @ after
               \<and> Parse_loop ord before (snd (Parse_init w0)) = Inr st1 \<longrightarrow>
               (\<forall>a. a < next_addr (wld st1) \<longrightarrow> parent_of w a = parent_of (wld st1) a))
         \<and> (\<forall>w1 d1 a1 w1'.
               XMLDocument_Append w1 d1 (ElementP a1) = Inr w1' \<longrightarrow>
               parent_of w1' a1 = Some (DocumentP d1)
               \<and> kids w1' (DocumentP d1) = kids w1 (DocumentP d1) @ [ElementP a1])
         \<and> (\<forall>w1 n p. value_node n \<longrightarrow> setParent w1 n p = Inr w1)"
proof -
  from Parse_built[OF assms] obtain st where
    l: "Parse_loop ord toks (snd (Parse_init w0)) = Inr st" and w: "wld st = w"
    and d: "d = next_addr w0" and b: "building d st"
    by blast
  note D = buildingD[OF b, unfolded w]
  from building_init[OF assms(1)] d have b0: "building d (snd (Parse_init w0))"
    by simp
  have one: "\<exists>elt p. elements w a = Some elt \<and> Parent elt = Some p
               \<and> count_list (kids w p) (ElementP a) = 1
               \<and> (\<forall>q. ElementP a \<in> set (kids w q) \<longrightarrow> q = p)"
    if a: "d < a \<and> a < next_addr w" for a
  proof -
    from D(6)[of a] a obtain p where p: "parent_of w a = Some p" "refs w p a = 1"
      by blast
    from p(1) obtain elt where elt: "elements w a = Some elt" "Parent elt = Some p"
      by (auto simp: parent_of_def split: option.splits)
    have "q = p" if "ElementP a \<in> set (kids w q)" for q
    proof -
      from that have "0 < refs w q a"
        by (simp add: refs_def count_list_0_iff zero_less_iff_neq_zero)
      from D(5)[OF _ this] a p(1) show ?thesis by simp
    qed
    with elt p(2) show ?thesis
      by (auto simp: refs_def)
  qed
  have created: "parent_of w (next_addr (wld st1)) = Some (cur st1)"
    if s: "toks = before @ xml_StartElement name attr # after
           \<and> Parse_loop ord before (snd (Parse_init w0)) = Inr st1"
    for before name attr after st1
  proof -
    from s have l1: "Parse_loop ord before (snd (Parse_init w0)) = Inr st1" by simp
    from building_loop[OF b0 l1] have b1: "building d st1" by simp
    from l s have "Parse_loop ord (xml_StartElement name attr # after) st1 = Inr st"
      by (simp add: Parse_loop_append)
    then obtain st2 where t: "Parse_token ord (xml_StartElement name attr) st1 = Inr st2"
      and l2: "Parse_loop ord after st2 = Inr st"
      by (auto split: sum.splits)
    from building_start_step[OF b1, of ord name attr] t
    have b2: "building d st2" and nx: "next_addr (wld st2) = Suc (next_addr (wld st1))"
      and pa: "parent_of (wld st2) (next_addr (wld st1)) = Some (cur st1)"
      by auto
    from building_loop[OF b2 l2] nx pa w show ?thesis
      by auto
  qed
  have kept: "parent_of w a = parent_of (wld st1) a"
    if s: "toks = before @ after \<and> Parse_loop ord before (snd (Parse_init w0)) = Inr st1"
      and a: "a < next_addr (wld st1)"
    for before after st1 a
  proof -
    from s have l1: "Parse_loop ord before (snd (Parse_init w0)) = Inr st1" by simp
    from building_loop[OF b0 l1] have b1: "building d st1" by simp
    from l s have l2: "Parse_loop ord after st1 = Inr st"
      by (simp add: Parse_loop_append)
    from building_loop[OF b1 l2] a w show ?thesis
      by auto
  qed
  have doc: "parent_of w1' a1 = Some (DocumentP d1)
               \<and> kids w1' (DocumentP d1) = kids w1 (DocumentP d1) @ [ElementP a1]"
    if "XMLDocument_Append w1 d1 (ElementP a1) = Inr w1'" for w1 d1 a1 w1'
    using XMLDocument_Append_parent[OF that] .
  have dummy: "setParent w1 n p = Inr w1" if "value_node n" for w1 n p
    using that by (cases n) (simp_all add: setParent_def)
  show ?thesis
  proof (intro conjI allI impI)
    fix a assume "d < a \<and> a < next_addr w"
    then show "\<exists>elt p. elements w a = Some elt \<and> Parent elt = Some p
               \<and> count_list (kids w p) (ElementP a) = 1
               \<and> (\<forall>q. ElementP a \<in> set (kids w q) \<longrightarrow> q = p)"
      by (rule one)
  next
    fix before name attr after st1
    assume "toks = before @ xml_StartElement name attr # after
            \<and> Parse_loop ord before (snd (Parse_init w0)) = Inr st1"
    then show "parent_of w (next_addr (wld st1)) = Some (cur st1)"
      by (rule created)
  next
    fix before after st1 a
    assume "toks = before @ after \<and> Parse_loop ord before (snd (Parse_init w0)) = Inr st1"
      and "a < next_addr (wld st1)"
    then show "parent_of w a = parent_of (wld st1) a"
      by (rule kept)
  next
    fix w1 d1 a1 w1'
    assume "XMLDocument_Append w1 d1 (ElementP a1) = Inr w1'"
    from doc[OF this]
    show "parent_of w1' a1 = Some (DocumentP d1)"
      and "kids w1' (DocumentP d1) = kids w1 (DocumentP d1) @ [ElementP a1]"
      by simp_all
  next
    fix w1 n p assume "value_node n"
    then show "setParent w1 n p = Inr w1"
      by (rule dummy)
  qed
qed

lemma world_ok_world0: "world_ok world0"
proof -
  have "kids world0 q = []" for q
    by (cases q) (simp_all add: world0_def)
  then show ?thesis
    by (simp add: world_ok_def refs_def world0_def)
qed

theorem parse_records_one_parent_witness:
  "world_ok world0
   \<and> Parse id ([xml_StartElement (xml_Name ''urn:x'' ''r'')
                  [xml_Attr (xml_Name ''xmlns'' ''a'') ''urn:x''],
                xml_StartElement (xml_Name ''urn:x'' ''c'') [],
                xml_EndElement (xml_Name ''urn:x'' ''c''),
                xml_EndElement (xml_Name ''urn:x'' ''r'')], None) world0
       = Inr (0, world_ns_nested)
   \<and> parent_of world_ns_nested 1 = Some (DocumentP 0)
   \<and> parent_of world_ns_nested 2 = Some (ElementP 1)
   \<and> kids world_ns_nested (DocumentP 0) = [ElementP 1]
   \<and> kids world_ns_nested (ElementP 1) = [ElementP 2]
   \<and> (\<exists>elt p. elements world_ns_nested 2 = Some elt \<and> Parent elt = Some p
         \<and> count_list (kids world_ns_nested p) (ElementP 2) = 1)"
proof -
  have two: "(0::nat) < 2 \<and> (2::nat) < next_addr world_ns_nested"
    by (simp add: world_ns_nested_def)
  from parse_records_one_parent[OF world_ok_world0 Parse_ns_nested, THEN conjunct1] two
  have "\<exists>elt p. elements world_ns_nested 2 = Some elt \<and> Parent elt = Some p
         \<and> count_list (kids world_ns_nested p) (ElementP 2) = 1
         \<and> (\<forall>q. ElementP 2 \<in> set (kids world_ns_nested q) \<longrightarrow> q = p)"
    by blast
  then have "\<exists>elt p. elements world_ns_nested 2 = Some elt \<and> Parent elt = Some p
         \<and> count_list (kids world_ns_nested p) (ElementP 2) = 1"
    by blast
  moreover have "parent_of world_ns_nested 1 = Some (DocumentP 0)"
    "parent_of world_ns_nested 2 = Some (ElementP 1)"
    "kids world_ns_nested (DocumentP 0) = [ElementP 1]"
    "kids world_ns_nested (ElementP 1) = [ElementP 2]"
    by (simp_all add: world_ns_nested_def parent_of_def)
  ultimately show ?thesis
    using world_ok_world0 Parse_ns_nested by blast
qed

text \<open>
  C5, as stated, fails. An element appended to a document and then to a second document
  has its parent changed from the first to the second, and is a child of both. An element
  appended to an element with \<^verbatim>\<open>Element.Append\<close> becomes its child and still has no
  parent.
\<close>

theorem parent_changed_counterexample:
  "XMLDocument_Append world_two_docs 0 (ElementP 2) = Inr world_appended_once
   \<and> parent_of world_appended_once 2 = Some (DocumentP 0)
   \<and> XMLDocument_Append world_appended_once 1 (ElementP 2) = Inr world_appended_twice
   \<and> parent_of world_appended_twice 2 = Some (DocumentP 1)
   \<and> kids world_appended_twice (DocumentP 0) = [ElementP 2]
   \<and> kids world_appended_twice (DocumentP 1) = [ElementP 2]
   \<and> Element_Append world_two_elts 0 (ElementP 1) = Inr world_elt_appended
   \<and> kids world_elt_appended (ElementP 0) = [ElementP 1]
   \<and> parent_of world_elt_appended 1 = None"
  by (simp add: world_appended_twice_def world_appended_once_def world_two_docs_def
                world_elt_appended_def world_two_elts_def XMLDocument_Append_def
                Element_Append_def elt_Append_def setParent_def parent_of_def)

section \<open>The shape of a built tree\<close>

lemma Append_kids_other:
  assumes "Append w c n = Inr w'" and "q \<noteq> c"
  shows "kids w' q = kids w q"
  using assms
  by (cases c; cases n; cases q)
     (auto simp: Element_Append_def XMLDocument_Append_def setParent_def
           split: option.splits if_splits)

lemma Append_kids_self:
  assumes "Append w c n = Inr w'" and "allocated w c"
  shows "kids w' c = kids w c @ [n]
         \<or> (\<exists>i s j t. n = CharData i s \<and> kids w c \<noteq> [] \<and> last (kids w c) = CharData j t
              \<and> kids w' c = butlast (kids w c) @ [CharData 0 (t @ s)])"
proof (cases c)
  case (ElementP a)
  with assms obtain elt where elt: "elements w a = Some elt"
    and w': "w' = w\<lparr>elements := (elements w)(a \<mapsto> elt_Append elt n)\<rparr>"
    by (auto simp: Element_Append_def split: option.splits)
  from elt_Append_children[of elt n] show ?thesis
    by (simp add: ElementP elt w')
next
  case (DocumentP d)
  with assms show ?thesis
    by (cases n)
       (auto simp: XMLDocument_Append_def setParent_def split: option.splits if_splits)
qed (use assms in auto)

lemma Append_kids_no_adjacent:
  assumes "Append w c n = Inr w'" and "\<not> adjacent_chardata (kids w (ElementP a))"
  shows "\<not> adjacent_chardata (kids w' (ElementP a))"
proof (cases "c = ElementP a")
  case True
  with assms(1) obtain elt where elt: "elements w a = Some elt"
    and w': "w' = w\<lparr>elements := (elements w)(a \<mapsto> elt_Append elt n)\<rparr>"
    by (auto simp: Element_Append_def split: option.splits)
  from assms(2) elt_Append_no_adjacent[of elt n] show ?thesis
    by (simp add: elt w')
next
  case False
  with Append_kids_other[OF assms(1), of "ElementP a"] assms(2) show ?thesis
    by simp
qed

lemma Append_members:
  assumes "Append w c n = Inr w'" and "allocated w c" and "m \<in> set (kids w' q)"
  shows "m \<in> set (kids w q) \<or> (q = c \<and> (m = n \<or> value_node m))"
proof (cases "q = c")
  case False
  with Append_kids_other[OF assms(1) False] assms(3) show ?thesis by simp
next
  case True
  from Append_kids_self[OF assms(1,2)] assms(3) True show ?thesis
    by (auto dest: in_set_butlastD)
qed

lemma shaped_Append:
  assumes "shaped b w" and "Append w c n = Inr w'" and "allocated w c"
    and "made b c"
    and "value_node n
         \<or> (\<exists>a. n = ElementP a \<and> addr_of c < a \<and> a < next_addr w \<and> elements w a \<noteq> None)"
  shows "shaped b w'"
  unfolding shaped_def
proof (intro conjI allI impI)
  fix q m assume qm: "made b q \<and> m \<in> set (kids w' q)"
  have keep: "\<exists>a. m = ElementP a \<and> addr_of q < a \<and> a < next_addr w' \<and> elements w' a \<noteq> None"
    if "\<exists>a. m = ElementP a \<and> addr_of q < a \<and> a < next_addr w \<and> elements w a \<noteq> None"
    using that Append_effect(1,2)[OF assms(2)] by auto
  from Append_members[OF assms(2,3), of m q] qm
  consider "m \<in> set (kids w q)" | "q = c" "m = n" | "value_node m"
    by blast
  then show "value_node m
        \<or> (\<exists>a. m = ElementP a \<and> addr_of q < a \<and> a < next_addr w' \<and> elements w' a \<noteq> None)"
  proof cases
    case 1
    with assms(1) qm keep show ?thesis unfolding shaped_def by blast
  next
    case 2
    with assms(5) keep show ?thesis by blast
  next
    case 3
    then show ?thesis by simp
  qed
next
  fix c' assume "b < c'"
  with assms(1) have "\<not> adjacent_chardata (kids w (ElementP c'))"
    unfolding shaped_def by blast
  from Append_kids_no_adjacent[OF assms(2) this]
  show "\<not> adjacent_chardata (kids w' (ElementP c'))" .
qed

lemma shaped_ids: "shaped b (w\<lparr>ids := i\<rparr>) = shaped b w"
  by (simp add: shaped_def)

lemma building_cur_made:
  assumes "building b st"
  shows "made b (cur st)"
  using buildingD(4)[OF assms, of "cur st"] by (auto simp: made_def)

lemma Parse_token_start_form:
  assumes "Parse_token ord (xml_StartElement name attr) st = Inr st'"
  shows "\<exists>e w3. children e = []
           \<and> Append ((wld st)\<lparr>next_addr := Suc (next_addr (wld st)), ids := ids (wld st) + 1,
                              elements := (elements (wld st))(next_addr (wld st) \<mapsto> e)\<rparr>)
                 (cur st) (ElementP (next_addr (wld st))) = Inr w3
           \<and> wld st' = w3"
proof -
  from assms obtain namespaces attrs w3 where
    "Append ((wld st)\<lparr>next_addr := Suc (next_addr (wld st)), ids := ids (wld st) + 1,
               elements := (elements (wld st))(next_addr (wld st) \<mapsto>
                 \<lparr>ID = ids (wld st), Name = Local name,
                  Prefix = resolve_prefix ord namespaces (Space name),
                  Parent = Some (cur st), Namespaces = namespaces, children = [],
                  attributes = attrs\<rparr>)\<rparr>)
       (cur st) (ElementP (next_addr (wld st))) = Inr w3"
    and "wld st' = w3"
    by (auto simp: NewElement_def recv_ids_def split: sum.splits prod.splits)
  then show ?thesis
    by (intro exI[of _ "\<lparr>ID = ids (wld st), Name = Local name,
                  Prefix = resolve_prefix ord namespaces (Space name),
                  Parent = Some (cur st), Namespaces = namespaces, children = [],
                  attributes = attrs\<rparr>"] exI[of _ w3]) simp
qed

lemma shaped_token:
  assumes "building b st" and "shaped b (wld st)" and "Parse_token ord tok st = Inr st'"
  shows "shaped b (wld st')"
proof -
  note cur_alloc = building_cur_allocated[OF assms(1)]
  note cur_made = building_cur_made[OF assms(1)]
  have val_case: "shaped b (wld st')"
    if "value_node n" "Append ((wld st)\<lparr>ids := ids (wld st) + 1\<rparr>) (cur st) n = Inr w'"
       "wld st' = w'" for n w'
  proof -
    have "allocated ((wld st)\<lparr>ids := ids (wld st) + 1\<rparr>) (cur st)"
      using cur_alloc by simp
    from shaped_Append[OF _ that(2) this cur_made] assms(2) that(1,3)
    show ?thesis by (simp add: shaped_ids)
  qed
  show ?thesis
  proof (cases tok)
    case (xml_StartElement name attr)
    let ?w = "wld st"
    let ?tmp = "next_addr ?w"
    note D = buildingD[OF assms(1)]
    note W = world_okD[OF D(1)]
    have fresh: "elements ?w ?tmp = None"
      using W(1)[of ?tmp] by (cases "elements ?w ?tmp") auto
    from Parse_token_start_form[of ord name attr st st'] assms(3) xml_StartElement
    obtain e w3 where
      e: "children e = []"
      and w3: "Append (?w\<lparr>next_addr := Suc ?tmp, ids := ids ?w + 1,
                           elements := (elements ?w)(?tmp \<mapsto> e)\<rparr>)
                 (cur st) (ElementP ?tmp) = Inr w3"
      and st': "wld st' = w3"
      by auto
    let ?w2 = "?w\<lparr>next_addr := Suc ?tmp, ids := ids ?w + 1,
                   elements := (elements ?w)(?tmp \<mapsto> e)\<rparr>"
    have kids2: "kids ?w2 q = (if q = ElementP ?tmp then [] else kids ?w q)" for q
      by (cases q) (auto simp: e)
    have kids_tmp: "kids ?w (ElementP ?tmp) = []"
      using fresh by simp
    have sh2: "shaped b ?w2"
      unfolding shaped_def
    proof (intro conjI allI impI)
      fix q m assume "made b q \<and> m \<in> set (kids ?w2 q)"
      then have "made b q \<and> m \<in> set (kids ?w q)"
        by (auto simp: kids2 split: if_splits)
      with assms(2) have "value_node m
          \<or> (\<exists>a. m = ElementP a \<and> addr_of q < a \<and> a < next_addr ?w \<and> elements ?w a \<noteq> None)"
        unfolding shaped_def by blast
      then show "value_node m
          \<or> (\<exists>a. m = ElementP a \<and> addr_of q < a \<and> a < next_addr ?w2 \<and> elements ?w2 a \<noteq> None)"
        by (auto simp: less_Suc_eq)
    next
      fix c assume "b < c"
      with assms(2) have "\<not> adjacent_chardata (kids ?w (ElementP c))"
        unfolding shaped_def by blast
      then show "\<not> adjacent_chardata (kids ?w2 (ElementP c))"
        by (simp add: e)
    qed
    have cur2: "allocated ?w2 (cur st)"
      using cur_alloc by (cases "cur st") auto
    have lt: "addr_of (cur st) < ?tmp"
      using cur_alloc W(1)[of "addr_of (cur st)"] W(2)[of "addr_of (cur st)"]
      by (cases "cur st") auto
    from shaped_Append[OF sh2 w3 cur2 cur_made] lt st' show ?thesis
      by auto
  next
    case (xml_EndElement name)
    with assms(2,3) show ?thesis by (auto split: if_splits)
  next
    case (xml_CharData v)
    with assms(3) val_case[of "CharData (ids (wld st)) v"] show ?thesis
      by (auto simp: recv_ids_def split: sum.splits)
  next
    case (xml_Comment v)
    with assms(3) val_case[of "Comment (ids (wld st)) v"] show ?thesis
      by (auto simp: recv_ids_def split: sum.splits)
  next
    case (xml_ProcInst target inst)
    with assms(3) val_case[of "ProcInst (ids (wld st)) target inst"] show ?thesis
      by (auto simp: recv_ids_def split: sum.splits)
  next
    case (xml_Directive v)
    with assms(2,3) show ?thesis by simp
  qed
qed

lemma shaped_loop:
  assumes "building b st" and "shaped b (wld st)" and "Parse_loop ord toks st = Inr st'"
  shows "shaped b (wld st')"
  using assms
proof (induction toks arbitrary: st)
  case Nil
  then show ?case by simp
next
  case (Cons tok toks)
  from Cons.prems(3) obtain st1 where t: "Parse_token ord tok st = Inr st1"
    and l: "Parse_loop ord toks st1 = Inr st'"
    by (auto split: sum.splits)
  from building_token[OF Cons.prems(1) t] have b1: "building b st1" by simp
  from Cons.IH[OF b1 shaped_token[OF Cons.prems(1,2) t] l] show ?case .
qed

lemma shaped_init:
  assumes "world_ok w0"
  shows "shaped (next_addr w0) (wld (snd (Parse_init w0)))"
proof -
  let ?b = "next_addr w0"
  let ?W = "wld (snd (Parse_init w0))"
  note W = world_okD[OF assms]
  have none: "elements w0 c = None" if "?b < c" for c
    using W(1)[of c] that by (cases "elements w0 c") auto
  have k: "kids ?W q = []" if "made ?b q" for q
    using that none by (auto simp: made_def Parse_init_def recv_ids_def)
  show ?thesis
    unfolding shaped_def
  proof (intro conjI allI impI)
    fix q m assume "made ?b q \<and> m \<in> set (kids ?W q)"
    with k[of q] show "value_node m
        \<or> (\<exists>a. m = ElementP a \<and> addr_of q < a \<and> a < next_addr ?W \<and> elements ?W a \<noteq> None)"
      by simp
  next
    fix c assume "?b < c"
    then have "made ?b (ElementP c)" by (simp add: made_def)
    from k[OF this] show "\<not> adjacent_chardata (kids ?W (ElementP c))" by simp
  qed
qed

lemma Parse_shaped:
  assumes "world_ok w0" and "Parse ord (toks, e) w0 = Inr (d, w)"
  shows "shaped d w \<and> documents w d \<noteq> None \<and> d < next_addr w"
proof -
  from Parse_built[OF assms] obtain st where
    l: "Parse_loop ord toks (snd (Parse_init w0)) = Inr st" and w: "wld st = w"
    and d: "d = next_addr w0" and b: "building d st"
    by blast
  from shaped_loop[OF _ _ l] building_init[OF assms(1)] shaped_init[OF assms(1)] d w
  have "shaped d w" by simp
  with buildingD(2,3)[OF b] w show ?thesis by simp
qed
section \<open>Serializing a built tree returns\<close>

lemma toxml_children_total:
  assumes "\<And>m printed. m \<in> set cs \<Longrightarrow> \<exists>r. toxml k ord w m printed = Inr r"
  shows "\<exists>r. toxml_children k ord w cs printed = Inr r"
  using assms
proof (induction cs arbitrary: printed)
  case Nil
  then show ?case by simp
next
  case (Cons c cs)
  from Cons.prems[of c printed] obtain s1 ds1 p1 where
    c: "toxml k ord w c printed = Inr (s1, ds1, p1)"
    by auto
  from Cons.IH[of p1] Cons.prems obtain r where "toxml_children k ord w cs p1 = Inr r"
    by auto
  with c show ?case
    by (cases r) auto
qed

lemma toxml_total:
  assumes "shaped b w"
  shows "value_node n \<or> (made b n \<and> allocated w n \<and> addr_of n < next_addr w
                          \<and> next_addr w - addr_of n < k)
         \<Longrightarrow> 0 < k \<Longrightarrow> \<exists>r. toxml k ord w n printed = Inr r"
proof (induction k arbitrary: n printed)
  case 0
  then show ?case by simp
next
  case (Suc j)
  show ?case
  proof (cases "value_node n")
    case True
    then show ?thesis by (cases n) auto
  next
    case False
    with Suc.prems have n: "made b n" "allocated w n" "addr_of n < next_addr w"
      "next_addr w - addr_of n < Suc j"
      by auto
    have j: "0 < j"
      using n(3,4) by arith
    have child: "\<exists>r. toxml j ord w m p = Inr r" if "m \<in> set (kids w n)" for m p
    proof -
      from assms n(1) that
      have "value_node m
            \<or> (\<exists>a. m = ElementP a \<and> addr_of n < a \<and> a < next_addr w \<and> elements w a \<noteq> None)"
        unfolding shaped_def by blast
      moreover have "made b m \<and> allocated w m \<and> addr_of m < next_addr w
                       \<and> next_addr w - addr_of m < j"
        if "m = ElementP a" "addr_of n < a" "a < next_addr w" "elements w a \<noteq> None" for a
        using that n(1,4) by (auto simp: made_def)
      ultimately show ?thesis
        using Suc.IH[of m p] j by blast
    qed
    from toxml_children_total[of "kids w n" j ord w] child
    have kids: "\<exists>r. toxml_children j ord w (kids w n) p = Inr r" for p
      by blast
    show ?thesis
    proof (cases n)
      case (ElementP a)
      with n(2) obtain elt where elt: "elements w a = Some elt"
        by auto
      obtain written p1 where pn:
        "print_namespaces (ord (Namespaces elt)) printed = (written, p1)"
        by (cases "print_namespaces (ord (Namespaces elt)) printed")
      from kids[of p1] obtain r where "toxml_children j ord w (children elt) p1 = Inr r"
        by (auto simp: ElementP elt)
      then show ?thesis
        by (cases r) (simp add: ElementP elt pn)
    next
      case (DocumentP d)
      with n(2) obtain xr where xr: "documents w d = Some xr"
        by auto
      from kids[of printed] show ?thesis
        by (simp add: DocumentP xr)
    qed (use False in auto)
  qed
qed

text \<open>
  The text of a parsed document. For every document that \<^verbatim>\<open>Parse\<close> returns, \<^verbatim>\<open>ToXML\<close>
  returns a text: the recursion of \<^verbatim>\<open>toxml\<close> ends, at a depth that the number of objects
  made by the build bounds, whatever order the ranges over the namespace maps take.
\<close>

theorem parsed_document_serializes:
  assumes "world_ok w0" and "Parse ord (toks, None) w0 = Inr (d, w)"
    and "next_addr w - d < k"
  shows "\<exists>out. XMLDocument_ToXML k ord' w d = Inr out"
proof -
  from Parse_shaped[OF assms(1,2)] have sh: "shaped d w" "documents w d \<noteq> None" "d < next_addr w"
    by simp_all
  have "made d (DocumentP d) \<and> allocated w (DocumentP d) \<and> addr_of (DocumentP d) < next_addr w
          \<and> next_addr w - addr_of (DocumentP d) < k"
    using sh(2,3) assms(3) by (simp add: made_def)
  moreover have "0 < k"
    using assms(3) sh(3) by arith
  ultimately obtain r where "toxml k ord' w (DocumentP d) {} = Inr r"
    using toxml_total[OF sh(1), of "DocumentP d" k ord' "{}"] by blast
  then show ?thesis
    by (simp add: XMLDocument_ToXML_def)
qed

theorem parsed_document_serializes_witness:
  "world_ok world0
   \<and> Parse id ([xml_StartElement (xml_Name ''urn:x'' ''r'')
                  [xml_Attr (xml_Name ''xmlns'' ''a'') ''urn:x''],
                xml_StartElement (xml_Name ''urn:x'' ''c'') [],
                xml_EndElement (xml_Name ''urn:x'' ''c''),
                xml_EndElement (xml_Name ''urn:x'' ''r'')], None) world0
       = Inr (0, world_ns_nested)
   \<and> next_addr world_ns_nested - 0 < 4
   \<and> (\<exists>out. XMLDocument_ToXML 4 id world_ns_nested 0 = Inr out)"
proof -
  have k: "next_addr world_ns_nested - 0 < 4"
    by (simp add: world_ns_nested_def)
  from parsed_document_serializes[OF world_ok_world0 Parse_ns_nested k, of id]
    world_ok_world0 Parse_ns_nested k
  show ?thesis by blast
qed

text \<open>
  Character data in a parsed tree. No element that \<^verbatim>\<open>Parse\<close> makes has two neighbouring
  character data children: what the decoder delivers in pieces inside an element is one
  node.
\<close>

theorem parsed_element_coalesced:
  assumes "world_ok w0" and "Parse ord (toks, None) w0 = Inr (d, w)"
    and "d < a" and "elements w a = Some elt"
  shows "\<not> adjacent_chardata (children elt)"
proof -
  from Parse_shaped[OF assms(1,2)] have "shaped d w"
    by simp
  with assms(3) have "\<not> adjacent_chardata (kids w (ElementP a))"
    unfolding shaped_def by blast
  with assms(4) show ?thesis by simp
qed

theorem parsed_element_coalesced_witness:
  "world_ok world0
   \<and> Parse id ([xml_StartElement (xml_Name [] ''a'') [], xml_CharData ''x'', xml_CharData ''y'',
                xml_EndElement (xml_Name [] ''a'')], None) world0 = Inr (0, world_merged)
   \<and> (0::nat) < 1
   \<and> elements world_merged 1 =
       Some \<lparr>ID = 1, Name = ''a'', Prefix = [], Parent = Some (DocumentP 0),
             Namespaces = [], children = [CharData 0 ''xy''], attributes = []\<rparr>
   \<and> \<not> adjacent_chardata [CharData 0 ''xy'']"
proof -
  have p: "Parse id ([xml_StartElement (xml_Name [] ''a'') [], xml_CharData ''x'',
                      xml_CharData ''y'', xml_EndElement (xml_Name [] ''a'')], None) world0
             = Inr (0, world_merged)"
    by (simp add: run_defs world_merged_def)
  have e: "elements world_merged 1 =
       Some \<lparr>ID = 1, Name = ''a'', Prefix = [], Parent = Some (DocumentP 0),
             Namespaces = [], children = [CharData 0 ''xy''], attributes = []\<rparr>"
    by (simp add: world_merged_def)
  have l: "(0::nat) < 1" by simp
  from parsed_element_coalesced[OF world_ok_world0 p l e] world_ok_world0 p e
  show ?thesis by simp
qed

end
